theory Spec2Isabelle
  imports Main
begin

section \<open>Source text and character classes\<close>

text \<open>
  The analysed program is \<^verbatim>\<open>src/app.py\<close>: a regular-expression tokenizer
  (\<^verbatim>\<open>analizar_lexico\<close>) and a recursive-descent parser (\<^verbatim>\<open>Parser\<close>,
  \<^verbatim>\<open>analizar_sintactico\<close>).

  A Python \<^verbatim>\<open>str\<close> is a sequence of code points. The embedding covers the code points
  0..255: a \<^typ>\<open>char\<close> is read as the code point of the same number, so that
  \<^term>\<open>CHR 0xF3\<close> is the letter o with acute accent of the parser's messages. The classes
  \<^verbatim>\<open>\d\<close>, \<^verbatim>\<open>\w\<close>, \<^verbatim>\<open>\s\<close> of Python's \<^verbatim>\<open>re\<close> on \<^verbatim>\<open>str\<close> patterns, \<^verbatim>\<open>str.lower\<close> and
  \<^verbatim>\<open>str.splitlines\<close> are written out for this range.
\<close>

definition LF :: char where "LF = CHR 0x0A"
definition CR :: char where "CR = CHR 0x0D"
definition QUOTE :: char where "QUOTE = CHR 0x22"

definition code :: "char \<Rightarrow> nat" where
  "code c = of_char c"

text \<open>\<^verbatim>\<open>\d\<close>: the decimal digits; below 256 these are 0..9.\<close>

definition is_digit :: "char \<Rightarrow> bool" where
  "is_digit c = (48 \<le> code c \<and> code c \<le> 57)"

text \<open>\<^verbatim>\<open>[A-Za-z_]\<close>\<close>

definition is_ident_start :: "char \<Rightarrow> bool" where
  "is_ident_start c =
     ((65 \<le> code c \<and> code c \<le> 90) \<or> (97 \<le> code c \<and> code c \<le> 122) \<or> code c = 95)"

text \<open>
  \<^verbatim>\<open>\w\<close>: alphanumeric code points and the underscore. Below 256 these are the ASCII
  letters and digits, the underscore, 0xAA, 0xB2, 0xB3, 0xB5, 0xB9, 0xBA, 0xBC..0xBE and
  0xC0..0xFF without 0xD7 and 0xF7.
\<close>

definition is_word :: "char \<Rightarrow> bool" where
  "is_word c =
     (is_ident_start c \<or> is_digit c \<or>
      code c \<in> {170, 178, 179, 181, 185, 186, 188, 189, 190} \<or>
      (192 \<le> code c \<and> code c \<noteq> 215 \<and> code c \<noteq> 247))"

text \<open>\<^verbatim>\<open>\s\<close>: below 256 these are 0x09..0x0D, 0x1C..0x1F, 0x20, 0x85 and 0xA0.\<close>

definition is_space :: "char \<Rightarrow> bool" where
  "is_space c =
     ((9 \<le> code c \<and> code c \<le> 13) \<or> (28 \<le> code c \<and> code c \<le> 32) \<or>
      code c = 133 \<or> code c = 160)"

text \<open>\<^verbatim>\<open>str.lower\<close>: below 256, A..Z and 0xC0..0xDE without 0xD7 move up by 32.\<close>

definition lower_char :: "char \<Rightarrow> char" where
  "lower_char c =
     (if (65 \<le> code c \<and> code c \<le> 90) \<or> (192 \<le> code c \<and> code c \<le> 222 \<and> code c \<noteq> 215)
      then char_of (code c + 32) else c)"

definition lower :: "string \<Rightarrow> string" where
  "lower s = map lower_char s"

text \<open>
  \<^verbatim>\<open>str.splitlines(keepends=True)\<close>: a line ends after \<^verbatim>\<open>\r\n\<close>, or after one of
  \<^verbatim>\<open>\n \r \x0b \x0c \x1c \x1d \x1e \x85\<close>; the line keeps its terminator, and there is no
  empty last line.
\<close>

definition is_linebreak :: "char \<Rightarrow> bool" where
  "is_linebreak c = (code c \<in> {10, 11, 12, 13, 28, 29, 30, 133})"

fun splitlines_from :: "string \<Rightarrow> string \<Rightarrow> string list" where
  "splitlines_from cur [] = (if cur = [] then [] else [cur])"
| "splitlines_from cur [c] = [cur @ [c]]"
| "splitlines_from cur (c # d # cs) =
     (if c = CR \<and> d = LF then (cur @ [c, d]) # splitlines_from [] cs
      else if is_linebreak c then (cur @ [c]) # splitlines_from [] (d # cs)
      else splitlines_from (cur @ [c]) (d # cs))"

definition splitlines_keepends :: "string \<Rightarrow> string list" where
  "splitlines_keepends s = splitlines_from [] s"

section \<open>The tokenizer\<close>

text \<open>
  \<^verbatim>\<open>RESERVADAS\<close> (lines 9-13).
\<close>

definition RESERVADAS :: "string set" where
  "RESERVADAS =
     {''programa'', ''int'', ''float'', ''double'', ''char'', ''void'',
      ''for'', ''while'', ''if'', ''else'',
      ''read'', ''printf'', ''end'', ''return'', ''system'', ''print''}"

text \<open>
  Each entry of \<^verbatim>\<open>token_specs\<close> (lines 16-25) is a named group of the regular expression.
  A group is modelled by the function that, given the text from the position at which the
  match is tried, returns the length of the group's match there, or \<^term>\<open>None\<close>. None of
  the patterns looks behind the position, so the text before it plays no part. The
  quantifiers are greedy, and nothing follows a group in the regular expression, so the first
  (longest) choice of each quantifier is the match, except in \<^verbatim>\<open>CADENA\<close>, where shorter
  choices of \<^verbatim>\<open>[^"\n]*\<close> are followed by a character that is not the quote either.
\<close>

text \<open>\<^verbatim>\<open>//[^\n]*\<close>\<close>

definition re_LINE_COMMENT :: "string \<Rightarrow> nat option" where
  "re_LINE_COMMENT s =
     (case s of
        c1 # c2 # r \<Rightarrow>
          if c1 = CHR ''/'' \<and> c2 = CHR ''/''
          then Some (2 + length (takeWhile (\<lambda>c. c \<noteq> LF) r)) else None
      | _ \<Rightarrow> None)"

text \<open>\<^verbatim>\<open>\d+(\.\d+)?\<close>\<close>

definition re_NUMERO :: "string \<Rightarrow> nat option" where
  "re_NUMERO s =
     (let d1 = takeWhile is_digit s in
      if d1 = [] then None
      else (case dropWhile is_digit s of
              c # r \<Rightarrow>
                if c = CHR ''.'' \<and> takeWhile is_digit r \<noteq> []
                then Some (length d1 + 1 + length (takeWhile is_digit r))
                else Some (length d1)
            | [] \<Rightarrow> Some (length d1)))"

text \<open>\<^verbatim>\<open>"[^"\n]*"\<close>\<close>

definition re_CADENA :: "string \<Rightarrow> nat option" where
  "re_CADENA s =
     (case s of
        c # r \<Rightarrow>
          if c = QUOTE
          then (case dropWhile (\<lambda>c. c \<noteq> QUOTE \<and> c \<noteq> LF) r of
                  c' # _ \<Rightarrow>
                    if c' = QUOTE
                    then Some (length (takeWhile (\<lambda>c. c \<noteq> QUOTE \<and> c \<noteq> LF) r) + 2)
                    else None
                | [] \<Rightarrow> None)
          else None
      | [] \<Rightarrow> None)"

text \<open>\<^verbatim>\<open>[A-Za-z_]\w*\<close>\<close>

definition re_IDENTIFICADOR :: "string \<Rightarrow> nat option" where
  "re_IDENTIFICADOR s =
     (case s of
        c # r \<Rightarrow> if is_ident_start c then Some (1 + length (takeWhile is_word r)) else None
      | [] \<Rightarrow> None)"

text \<open>\<^verbatim>\<open><=|>=|==|!=|\+\+|--|[=+\-*/%<>]\<close>: the alternatives are tried from left to right.\<close>

definition re_SIMBOLO :: "string \<Rightarrow> nat option" where
  "re_SIMBOLO s =
     (case find (\<lambda>op. take (length op) s = op)
             [''<='', ''>='', ''=='', ''!='', ''++'', ''--''] of
        Some op \<Rightarrow> Some (length op)
      | None \<Rightarrow>
          (case s of
             c # _ \<Rightarrow> if c \<in> set ''=+-*/%<>'' then Some 1 else None
           | [] \<Rightarrow> None))"

text \<open>\<^verbatim>\<open>[;(),{}\.\[\]]\<close>\<close>

definition re_DELIMITADOR :: "string \<Rightarrow> nat option" where
  "re_DELIMITADOR s =
     (case s of
        c # _ \<Rightarrow> if c \<in> set '';(),{}.[]'' then Some 1 else None
      | [] \<Rightarrow> None)"

text \<open>\<^verbatim>\<open>\s+\<close>\<close>

definition re_ESPACIO :: "string \<Rightarrow> nat option" where
  "re_ESPACIO s =
     (let w = takeWhile is_space s in if w = [] then None else Some (length w))"

text \<open>\<^verbatim>\<open>.\<close>: any character but the newline.\<close>

definition re_DESCONOCIDO :: "string \<Rightarrow> nat option" where
  "re_DESCONOCIDO s =
     (case s of
        c # _ \<Rightarrow> if c = LF then None else Some 1
      | [] \<Rightarrow> None)"

definition token_specs :: "(string \<times> (string \<Rightarrow> nat option)) list" where
  "token_specs =
     [(''LINE_COMMENT'', re_LINE_COMMENT),
      (''NUMERO'', re_NUMERO),
      (''CADENA'', re_CADENA),
      (''IDENTIFICADOR'', re_IDENTIFICADOR),
      (''SIMBOLO'', re_SIMBOLO),
      (''DELIMITADOR'', re_DELIMITADOR),
      (''ESPACIO'', re_ESPACIO),
      (''DESCONOCIDO'', re_DESCONOCIDO)]"

text \<open>
  \<^verbatim>\<open>'|'.join(...)\<close> (line 26): the groups are alternatives, tried in the order of the list;
  the first one that matches at the position is the match, and its name is
  \<^verbatim>\<open>m.lastgroup\<close> (the inner group of \<^verbatim>\<open>NUMERO\<close> has no name and closes before it).
\<close>

fun first_match ::
  "(string \<times> (string \<Rightarrow> nat option)) list \<Rightarrow> string \<Rightarrow> (string \<times> nat) option" where
  "first_match [] s = None"
| "first_match ((name, p) # ps) s =
     (case p s of Some n \<Rightarrow> Some (name, n) | None \<Rightarrow> first_match ps s)"

definition regex_tokens :: "string \<Rightarrow> (string \<times> nat) option" where
  "regex_tokens s = first_match token_specs s"

lemma first_match_pos:
  assumes "first_match ps s = Some (g, n)"
    and "\<And>name p k. (name, p) \<in> set ps \<Longrightarrow> p s = Some k \<Longrightarrow> 0 < k \<and> k \<le> length s"
  shows "0 < n \<and> n \<le> length s"
  using assms
proof (induction ps)
  case Nil
  then show ?case by simp
next
  case (Cons a ps)
  obtain name p where a: "a = (name, p)" by (cases a)
  show ?case
  proof (cases "p s")
    case None
    with Cons a show ?thesis by auto
  next
    case (Some k)
    with Cons.prems a show ?thesis by auto
  qed
qed

lemma length_takeWhile_le_length: "length (takeWhile P xs) \<le> length xs"
  by (induction xs) auto

lemma re_LINE_COMMENT_pos: "re_LINE_COMMENT s = Some k \<Longrightarrow> 0 < k \<and> k \<le> length s"
  using length_takeWhile_le_length [of "\<lambda>c. c \<noteq> LF"]
  by (auto simp: re_LINE_COMMENT_def split: list.splits if_splits)

lemma re_NUMERO_pos: "re_NUMERO s = Some k \<Longrightarrow> 0 < k \<and> k \<le> length s"
proof -
  assume a: "re_NUMERO s = Some k"
  have split_s: "length s = length (takeWhile is_digit s) + length (dropWhile is_digit s)"
    by (metis length_append takeWhile_dropWhile_id)
  from a split_s show ?thesis
    using length_takeWhile_le_length [of is_digit "tl (dropWhile is_digit s)"]
    by (auto simp: re_NUMERO_def Let_def split: if_splits list.splits)
qed

lemma re_CADENA_pos: "re_CADENA s = Some k \<Longrightarrow> 0 < k \<and> k \<le> length s"
proof -
  assume a: "re_CADENA s = Some k"
  then obtain c r where s: "s = c # r"
    by (cases s) (auto simp: re_CADENA_def)
  let ?P = "\<lambda>c. c \<noteq> QUOTE \<and> c \<noteq> LF"
  have len: "length r = length (takeWhile ?P r) + length (dropWhile ?P r)"
    by (metis length_append takeWhile_dropWhile_id)
  from a s len show ?thesis
    by (auto simp: re_CADENA_def split: if_splits list.splits)
qed

lemma re_IDENTIFICADOR_pos: "re_IDENTIFICADOR s = Some k \<Longrightarrow> 0 < k \<and> k \<le> length s"
  using length_takeWhile_le_length [of is_word]
  by (auto simp: re_IDENTIFICADOR_def split: list.splits if_splits)

lemma find_SomeD: "find P xs = Some x \<Longrightarrow> x \<in> set xs \<and> P x"
  by (induction xs) (auto split: if_splits)

lemma re_SIMBOLO_pos: "re_SIMBOLO s = Some k \<Longrightarrow> 0 < k \<and> k \<le> length s"
proof -
  assume a: "re_SIMBOLO s = Some k"
  let ?ops = "[''<='', ''>='', ''=='', ''!='', ''++'', ''--'']"
  show ?thesis
  proof (cases "find (\<lambda>op. take (length op) s = op) ?ops")
    case None
    with a show ?thesis
      by (cases s) (simp_all add: re_SIMBOLO_def split: if_splits)
  next
    case (Some op)
    from find_SomeD [OF Some] have m: "op \<in> set ?ops" and t: "take (length op) s = op"
      by blast+
    from m have l2: "length op = 2" by auto
    from t have "length op \<le> length s"
      by (metis length_take min.cobounded1 min.commute)
    with a Some l2 show ?thesis
      by (simp add: re_SIMBOLO_def)
  qed
qed

lemma re_DELIMITADOR_pos: "re_DELIMITADOR s = Some k \<Longrightarrow> 0 < k \<and> k \<le> length s"
  by (cases s) (simp_all add: re_DELIMITADOR_def split: if_splits)

lemma re_ESPACIO_pos: "re_ESPACIO s = Some k \<Longrightarrow> 0 < k \<and> k \<le> length s"
  using length_takeWhile_le_length [of is_space s]
  by (auto simp: re_ESPACIO_def Let_def split: if_splits)

lemma re_DESCONOCIDO_pos: "re_DESCONOCIDO s = Some k \<Longrightarrow> 0 < k \<and> k \<le> length s"
  by (cases s) (simp_all add: re_DESCONOCIDO_def split: if_splits)

lemma regex_tokens_pos: "regex_tokens s = Some (g, n) \<Longrightarrow> 0 < n \<and> n \<le> length s"
  using re_LINE_COMMENT_pos [of s] re_NUMERO_pos [of s] re_CADENA_pos [of s]
    re_IDENTIFICADOR_pos [of s] re_SIMBOLO_pos [of s] re_DELIMITADOR_pos [of s]
    re_ESPACIO_pos [of s] re_DESCONOCIDO_pos [of s]
  by (simp add: regex_tokens_def token_specs_def split: option.splits)

text \<open>
  \<^verbatim>\<open>re.finditer\<close> (line 33): the matches from left to right, each a triple of
  \<^verbatim>\<open>m.lastgroup\<close>, \<^verbatim>\<open>m.start()\<close> and \<^verbatim>\<open>m.group(0)\<close>. The search for the next match
  starts where the last one ended; where no alternative matches, it moves on by one
  character.
\<close>

function finditer :: "nat \<Rightarrow> string \<Rightarrow> (string \<times> nat \<times> string) list" where
  "finditer pos s =
     (case regex_tokens s of
        Some (g, n) \<Rightarrow> (g, pos, take n s) # finditer (pos + n) (drop n s)
      | None \<Rightarrow> (case s of [] \<Rightarrow> [] | _ # r \<Rightarrow> finditer (pos + 1) r))"
  by pat_completeness auto
termination
proof (relation "measure (\<lambda>(pos, s). length s)")
  show "wf (measure (\<lambda>(pos, s). length s))" by simp
next
  fix pos s x2 g n
  assume "regex_tokens s = Some x2" "(g, n) = x2"
  then have "0 < n \<and> n \<le> length s" by (auto dest: regex_tokens_pos)
  then have "length s - n < length s" by linarith
  then show "((pos + n, drop n s), pos, s) \<in> measure (\<lambda>(pos, s). length s)" by simp
next
  fix pos s x21 x22
  assume "s = x21 # x22"
  then show "((pos + 1, x22), pos, s) \<in> measure (\<lambda>(pos, s). length s)" by simp
qed

declare finditer.simps [simp del]

text \<open>
  The loop of lines 38-40 moves the line counter to the line that holds the offset
  \<^verbatim>\<open>m.start()\<close>. \<^verbatim>\<open>linea\<close> starts at 1 and only grows, so the index
  \<^verbatim>\<open>linea-1\<close> is never negative.
\<close>

function advance_line :: "string list \<Rightarrow> nat \<Rightarrow> int \<times> nat \<Rightarrow> int \<times> nat" where
  "advance_line lineas start (linea, col_base) =
     (if linea - 1 < int (length lineas) \<and>
         start \<ge> col_base + length (lineas ! nat (linea - 1))
      then advance_line lineas start (linea + 1, col_base + length (lineas ! nat (linea - 1)))
      else (linea, col_base))"
  by pat_completeness auto
termination
proof (relation "measure (\<lambda>(lineas, start, linea, col_base). nat (int (length lineas) - (linea - 1)))")
  show "wf (measure (\<lambda>(lineas, start, linea, col_base). nat (int (length lineas) - (linea - 1))))"
    by simp
next
  fix lineas :: "string list" and start :: nat and linea :: int and col_base :: nat
  assume "linea - 1 < int (length lineas) \<and>
          col_base + length (lineas ! nat (linea - 1)) \<le> start"
  then have "nat (int (length lineas) - linea) < nat (int (length lineas) - (linea - 1))"
    by linarith
  then show "((lineas, start, linea + 1, col_base + length (lineas ! nat (linea - 1))),
              lineas, start, linea, col_base)
             \<in> measure (\<lambda>(lineas, start, linea, col_base). nat (int (length lineas) - (linea - 1)))"
    by simp
qed

declare advance_line.simps [simp del]

record token =
  tipo :: string
  lexema :: string
  linea :: int
  columna :: int

text \<open>The body of the \<^verbatim>\<open>for\<close> loop (lines 33-50), over the matches of \<^verbatim>\<open>finditer\<close>.\<close>

fun lex_loop ::
  "string list \<Rightarrow> (string \<times> nat \<times> string) list \<Rightarrow> int \<times> nat \<Rightarrow> token list" where
  "lex_loop lineas [] lc = []"
| "lex_loop lineas ((tp, start, lexeme) # ms) lc =
     (let lc' = advance_line lineas start lc;
          col = int start - int (snd lc') + 1
      in if tp \<in> {''ESPACIO'', ''LINE_COMMENT''} then lex_loop lineas ms lc'
         else \<lparr>tipo = (if tp = ''IDENTIFICADOR'' \<and> lower lexeme \<in> RESERVADAS
                        then ''PALABRA_RESERVADA'' else tp),
               lexema = lexeme, linea = fst lc', columna = col\<rparr>
              # lex_loop lineas ms lc')"

definition analizar_lexico :: "string \<Rightarrow> token list" where
  "analizar_lexico codigo =
     lex_loop (splitlines_keepends codigo) (finditer 0 codigo) (1, 0)"

section \<open>The parser\<close>

text \<open>The characters of the messages that are not ASCII, and the apostrophe.\<close>

definition APOS :: char where "APOS = CHR 0x27"
definition a_acute :: char where "a_acute = CHR 0xE1"
definition e_acute :: char where "e_acute = CHR 0xE9"
definition i_acute :: char where "i_acute = CHR 0xED"
definition o_acute :: char where "o_acute = CHR 0xF3"

text \<open>\<^verbatim>\<open>str\<close> of an integer, as an f-string formats \<^verbatim>\<open>tok['linea']\<close>.\<close>

function str_nat :: "nat \<Rightarrow> string" where
  "str_nat n =
     (if n < 10 then [char_of (48 + n)] else str_nat (n div 10) @ [char_of (48 + n mod 10)])"
  by pat_completeness auto
termination
  by (relation "measure (\<lambda>n. n)") auto

declare str_nat.simps [simp del]

definition str_int :: "int \<Rightarrow> string" where
  "str_int k = (if k < 0 then CHR ''-'' # str_nat (nat (- k)) else str_nat (nat k))"

text \<open>\<^verbatim>\<open>sep.join(xs)\<close>\<close>

fun join :: "string \<Rightarrow> string list \<Rightarrow> string" where
  "join sep [] = []"
| "join sep [x] = x"
| "join sep (x # y # ys) = x @ sep @ join sep (y # ys)"

text \<open>
  The state of a \<^verbatim>\<open>Parser\<close> object (lines 57-60): the token list, the cursor and the
  diagnostics. The field \<open>advances\<close> is not a field of the source: it counts the executions
  of \<^verbatim>\<open>self.i += 1\<close>, and nothing reads it.
\<close>

record pstate =
  self_t :: "token list"
  self_i :: int
  self_err :: "string list"
  advances :: nat

definition Parser :: "token list \<Rightarrow> pstate" where
  "Parser tokens = \<lparr>self_t = tokens, self_i = 0, self_err = [], advances = 0\<rparr>"

text \<open>\<^verbatim>\<open>self.i += 1\<close>\<close>

definition advance :: "pstate \<Rightarrow> pstate" where
  "advance st = st\<lparr>self_i := self_i st + 1, advances := advances st + 1\<rparr>"

text \<open>\<^verbatim>\<open>self.err.append(m)\<close>\<close>

definition err_append :: "string \<Rightarrow> pstate \<Rightarrow> pstate" where
  "err_append m st = st\<lparr>self_err := self_err st @ [m]\<rparr>"

text \<open>\<^verbatim>\<open>peek\<close> (lines 62-64); the index is guarded, so the read is in range.\<close>

definition peek :: "pstate \<Rightarrow> int \<Rightarrow> token option" where
  "peek st k =
     (let j = self_i st + k
      in if 0 \<le> j \<and> j < int (length (self_t st)) then Some (self_t st ! nat j) else None)"

text \<open>\<^verbatim>\<open>f"{tok['tipo']}('{tok['lexema']}')"\<close>\<close>

definition show_tok :: "token \<Rightarrow> string" where
  "show_tok tok = tipo tok @ ''('' @ [APOS] @ lexema tok @ [APOS] @ '')''"

text \<open>
  The message of \<^verbatim>\<open>match\<close> when the caller passes none (lines 72-77). An argument that
  is \<^verbatim>\<open>None\<close> or the empty string is not listed among the expected.
\<close>

definition default_msg :: "string option \<Rightarrow> string option \<Rightarrow> token option \<Rightarrow> string" where
  "default_msg tp lx tok =
     (let esperado =
            (case tp of Some x \<Rightarrow> if x \<noteq> [] then [x] else [] | None \<Rightarrow> []) @
            (case lx of Some x \<Rightarrow> if x \<noteq> [] then [[APOS] @ x @ [APOS]] else [] | None \<Rightarrow> []);
          got = (case tok of None \<Rightarrow> ''EOF'' | Some k \<Rightarrow> show_tok k)
      in ''Se esperaba '' @ join '' y '' esperado @ '' pero se encontr'' @ [o_acute] @ '' '' @
         got @ '' (l'' @ [i_acute] @ ''nea '' @
         (case tok of Some k \<Rightarrow> str_int (linea k) | None \<Rightarrow> ''-'') @ '').'')"

text \<open>
  \<^verbatim>\<open>match\<close> (lines 66-81) returns the token or \<^verbatim>\<open>None\<close>, and the new state. A token
  is a dictionary with four keys, so it is true as a condition.
\<close>

definition match ::
  "string option \<Rightarrow> string option \<Rightarrow> string option \<Rightarrow> pstate \<Rightarrow> token option \<times> pstate" where
  "match tp lx msg st =
     (case peek st 0 of
        Some tok \<Rightarrow>
          if (case tp of None \<Rightarrow> True | Some x \<Rightarrow> tipo tok = x) \<and>
             (case lx of None \<Rightarrow> True | Some x \<Rightarrow> lexema tok = x)
          then (Some tok, advance st)
          else (None,
                advance (err_append
                  (case msg of None \<Rightarrow> default_msg tp lx (Some tok) | Some m \<Rightarrow> m) st))
      | None \<Rightarrow>
          (None,
           err_append (case msg of None \<Rightarrow> default_msg tp lx None | Some m \<Rightarrow> m) st))"

text \<open>\<^verbatim>\<open>self.match(...)\<close> as a statement: the returned token is dropped.\<close>

definition do_match ::
  "string option \<Rightarrow> string option \<Rightarrow> string option \<Rightarrow> pstate \<Rightarrow> pstate" where
  "do_match tp lx msg st = snd (match tp lx msg st)"

text \<open>
  How far a state \<open>st'\<close> is from a state \<open>st\<close> it was reached from: the same tokens, the
  cursor not moved back and not past the end of the tokens if it was not there before,
  and one counted advance for every step of the cursor.
\<close>

definition forward :: "pstate \<Rightarrow> pstate \<Rightarrow> bool" where
  "forward st st' =
     (self_t st' = self_t st \<and> self_i st \<le> self_i st' \<and>
      self_i st' \<le> max (self_i st) (int (length (self_t st))) \<and>
      int (advances st') = int (advances st) + (self_i st' - self_i st))"

definition remaining :: "pstate \<Rightarrow> nat" where
  "remaining st = nat (int (length (self_t st)) - self_i st)"

lemma forward_refl: "forward st st"
  by (simp add: forward_def)

lemma forward_trans: "forward a b \<Longrightarrow> forward b c \<Longrightarrow> forward a c"
  by (auto simp: forward_def)

lemma forward_err_append: "forward st (err_append m st)"
  by (simp add: forward_def err_append_def)

lemma peek_Some_iff:
  "(\<exists>tok. peek st 0 = Some tok) \<longleftrightarrow> (0 \<le> self_i st \<and> self_i st < int (length (self_t st)))"
  by (auto simp: peek_def Let_def)

lemma peek_err_append: "peek (err_append m st) k = peek st k"
  by (simp add: peek_def err_append_def Let_def)

lemma forward_advance: "peek st 0 = Some tok \<Longrightarrow> forward st (advance st)"
  using peek_Some_iff [of st] by (auto simp: forward_def advance_def)

lemma forward_remaining: "forward st st' \<Longrightarrow> remaining st' \<le> remaining st"
  by (auto simp: forward_def remaining_def)

lemma remaining_advance: "peek st 0 = Some tok \<Longrightarrow> remaining (advance st) < remaining st"
  using peek_Some_iff [of st] by (auto simp: remaining_def advance_def)

lemma forward_advance_err:
  "peek st 0 = Some tok \<Longrightarrow> forward st (advance (err_append m st))"
  using forward_advance [of "err_append m st" tok] forward_err_append [of st m]
  by (auto simp: peek_err_append intro: forward_trans)

lemma forward_do_match: "forward st (do_match tp lx msg st)"
  by (auto simp: do_match_def match_def forward_refl forward_err_append
      forward_advance forward_advance_err split: option.splits)

lemma do_match_moves:
  "peek st 0 = Some tok \<Longrightarrow> self_i (do_match tp lx msg st) = self_i st + 1"
  by (auto simp: do_match_def match_def advance_def err_append_def split: option.splits)

subsection \<open>Declarations, \<^verbatim>\<open>read\<close> and \<^verbatim>\<open>printf\<close>\<close>

text \<open>The \<^verbatim>\<open>while\<close> loop of \<^verbatim>\<open>parse_decl\<close> (lines 120-122).\<close>

function decl_loop :: "pstate \<Rightarrow> pstate" where
  "decl_loop st =
     (case peek st 0 of
        Some tok \<Rightarrow>
          if tipo tok = ''DELIMITADOR'' \<and> lexema tok = '',''
          then decl_loop
                 (do_match (Some ''IDENTIFICADOR'') None
                    (Some (''Se esperaba un identificador despu'' @ [e_acute] @ ''s de ','.''))
                    (advance st))
          else st
      | None \<Rightarrow> st)"
  by pat_completeness auto
termination
proof (relation "measure remaining", goal_cases)
  case 1
  then show ?case by simp
next
  case (2 st tok)
  then show ?case
    using remaining_advance [of st tok]
      forward_remaining [OF forward_do_match, of "Some ''IDENTIFICADOR''" None
        "Some (''Se esperaba un identificador despu'' @ [e_acute] @ ''s de ','.'')" "advance st"]
    by simp
qed

declare decl_loop.simps [simp del]

text \<open>\<^verbatim>\<open>parse_decl\<close> (lines 117-123)\<close>

definition parse_decl :: "pstate \<Rightarrow> pstate" where
  "parse_decl st =
     (let st1 = do_match (Some ''PALABRA_RESERVADA'') (Some ''int'') None st;
          st2 = do_match (Some ''IDENTIFICADOR'') None
                  (Some (''Se esperaba un identificador en la declaraci'' @ [o_acute] @ ''n.'')) st1;
          st3 = decl_loop st2
      in do_match (Some ''DELIMITADOR'') (Some '';'')
           (Some (''Falta ';' al final de la declaraci'' @ [o_acute] @ ''n.'')) st3)"

text \<open>\<^verbatim>\<open>parse_read\<close> (lines 126-129)\<close>

definition parse_read :: "pstate \<Rightarrow> pstate" where
  "parse_read st =
     (let st1 = do_match (Some ''PALABRA_RESERVADA'') (Some ''read'') None st;
          st2 = do_match (Some ''IDENTIFICADOR'') None
                  (Some (''Se esperaba un identificador despu'' @ [e_acute] @ ''s de 'read'.'')) st1
      in do_match (Some ''DELIMITADOR'') (Some '';'')
           (Some (''Falta ';' despu'' @ [e_acute] @ ''s de la instrucci'' @ [o_acute] @
                  ''n 'read'.'')) st2)"

text \<open>\<^verbatim>\<open>parse_printf\<close> (lines 132-137)\<close>

definition parse_printf :: "pstate \<Rightarrow> pstate" where
  "parse_printf st =
     (let st1 = do_match (Some ''PALABRA_RESERVADA'') (Some ''printf'') None st;
          st2 = do_match (Some ''DELIMITADOR'') (Some ''('') (Some ''Falta '(' en printf.'') st1;
          st3 = do_match (Some ''CADENA'') None (Some ''Falta la cadena dentro de printf.'') st2;
          st4 = do_match (Some ''DELIMITADOR'') (Some '')'') (Some ''Falta ')' al cerrar printf.'') st3
      in do_match (Some ''DELIMITADOR'') (Some '';'') (Some ''Falta ';' al final de printf.'') st4)"

subsection \<open>Expressions\<close>

text \<open>
  \<^verbatim>\<open>parse_expr\<close>, \<^verbatim>\<open>parse_term\<close> and \<^verbatim>\<open>parse_factor\<close> (lines 147-175) call each other;
  \<open>expr_loop\<close> and \<open>term_loop\<close> are the \<^verbatim>\<open>while\<close> loops of the first two.
\<close>

function (domintros) parse_expr :: "pstate \<Rightarrow> pstate"
  and expr_loop :: "pstate \<Rightarrow> pstate"
  and parse_term :: "pstate \<Rightarrow> pstate"
  and term_loop :: "pstate \<Rightarrow> pstate"
  and parse_factor :: "pstate \<Rightarrow> pstate" where
  "parse_expr st = expr_loop (parse_term st)"
| "expr_loop st =
     (case peek st 0 of
        Some tok \<Rightarrow>
          if tipo tok = ''SIMBOLO'' \<and> lexema tok \<in> {''+'', ''-''}
          then expr_loop (parse_term (advance st)) else st
      | None \<Rightarrow> st)"
| "parse_term st = term_loop (parse_factor st)"
| "term_loop st =
     (case peek st 0 of
        Some tok \<Rightarrow>
          if tipo tok = ''SIMBOLO'' \<and> lexema tok \<in> {''*'', ''/''}
          then term_loop (parse_factor (advance st)) else st
      | None \<Rightarrow> st)"
| "parse_factor st =
     (case peek st 0 of
        None \<Rightarrow> err_append (''Expresi'' @ [o_acute] @ ''n incompleta.'') st
      | Some tok \<Rightarrow>
          if tipo tok \<in> {''IDENTIFICADOR'', ''NUMERO''} then advance st
          else if tipo tok = ''DELIMITADOR'' \<and> lexema tok = ''(''
          then do_match (Some ''DELIMITADOR'') (Some '')'')
                 (Some (''Falta ')' para cerrar la expresi'' @ [o_acute] @ ''n.''))
                 (parse_expr (advance st))
          else advance
                 (err_append
                    (''Factor inv'' @ [a_acute] @ ''lido en la expresi'' @ [o_acute] @ ''n: '' @
                     show_tok tok @ '' (l'' @ [i_acute] @ ''nea '' @ str_int (linea tok) @ '').'')
                    st))"
  by pat_completeness auto

text \<open>
  The loops call themselves on the result of \<open>parse_term\<close> and \<open>parse_factor\<close>, so
  that the termination proof needs to know first that these do not move the cursor back.
\<close>

lemma expr_forward_dom:
  "parse_expr_expr_loop_parse_term_term_loop_parse_factor_dom (Inl (Inl a)) \<Longrightarrow>
     forward a (parse_expr a)"
  "parse_expr_expr_loop_parse_term_term_loop_parse_factor_dom (Inl (Inr b)) \<Longrightarrow>
     forward b (expr_loop b)"
  "parse_expr_expr_loop_parse_term_term_loop_parse_factor_dom (Inr (Inl c)) \<Longrightarrow>
     forward c (parse_term c)"
  "parse_expr_expr_loop_parse_term_term_loop_parse_factor_dom (Inr (Inr (Inl d))) \<Longrightarrow>
     forward d (term_loop d)"
  "parse_expr_expr_loop_parse_term_term_loop_parse_factor_dom (Inr (Inr (Inr e))) \<Longrightarrow>
     forward e (parse_factor e)"
proof (induction a and b and c and d and e
    rule: parse_expr_expr_loop_parse_term_term_loop_parse_factor.pinduct)
  case (1 st)
  then show ?case
    by (auto simp: parse_expr.psimps intro: forward_trans)
next
  case (2 st)
  show ?case
  proof (cases "peek st 0")
    case None
    with 2(1) show ?thesis by (simp add: expr_loop.psimps forward_refl)
  next
    case (Some tok)
    show ?thesis
    proof (cases "tipo tok = ''SIMBOLO'' \<and> lexema tok \<in> {''+'', ''-''}")
      case True
      with 2 Some have "forward (advance st) (parse_term (advance st))"
        and "forward (parse_term (advance st)) (expr_loop (parse_term (advance st)))"
        by blast+
      with forward_advance [OF Some] have "forward st (expr_loop (parse_term (advance st)))"
        by (blast intro: forward_trans)
      with 2(1) Some True show ?thesis by (simp add: expr_loop.psimps)
    next
      case False
      with 2(1) Some show ?thesis by (auto simp add: expr_loop.psimps forward_refl)
    qed
  qed
next
  case (3 st)
  then show ?case
    by (auto simp: parse_term.psimps intro: forward_trans)
next
  case (4 st)
  show ?case
  proof (cases "peek st 0")
    case None
    with 4(1) show ?thesis by (simp add: term_loop.psimps forward_refl)
  next
    case (Some tok)
    show ?thesis
    proof (cases "tipo tok = ''SIMBOLO'' \<and> lexema tok \<in> {''*'', ''/''}")
      case True
      with 4 Some have "forward (advance st) (parse_factor (advance st))"
        and "forward (parse_factor (advance st)) (term_loop (parse_factor (advance st)))"
        by blast+
      with forward_advance [OF Some] have "forward st (term_loop (parse_factor (advance st)))"
        by (blast intro: forward_trans)
      with 4(1) Some True show ?thesis by (simp add: term_loop.psimps)
    next
      case False
      with 4(1) Some show ?thesis by (auto simp add: term_loop.psimps forward_refl)
    qed
  qed
next
  case (5 st)
  show ?case
  proof (cases "peek st 0")
    case None
    with 5(1) show ?thesis by (simp add: parse_factor.psimps forward_err_append)
  next
    case (Some tok)
    show ?thesis
    proof (cases "tipo tok \<in> {''IDENTIFICADOR'', ''NUMERO''}")
      case True
      with 5(1) Some show ?thesis
        using forward_advance [OF Some] by (auto simp add: parse_factor.psimps)
    next
      case notid: False
      show ?thesis
      proof (cases "tipo tok = ''DELIMITADOR'' \<and> lexema tok = ''(''")
        case True
        with 5 Some notid have "forward (advance st) (parse_expr (advance st))"
          by blast
        then have "forward st (do_match (Some ''DELIMITADOR'') (Some '')'')
                 (Some (''Falta ')' para cerrar la expresi'' @ [o_acute] @ ''n.''))
                 (parse_expr (advance st)))"
          using forward_advance [OF Some] forward_do_match
          by (blast intro: forward_trans)
        with 5(1) Some notid True show ?thesis by (simp add: parse_factor.psimps)
      next
        case False
        with 5(1) Some notid show ?thesis
          using forward_advance_err [OF Some] by (auto simp add: parse_factor.psimps)
      qed
    qed
  qed
qed

termination parse_expr
proof (relation "measures
    [\<lambda>x. remaining (case x of Inl (Inl st) \<Rightarrow> st | Inl (Inr st) \<Rightarrow> st | Inr (Inl st) \<Rightarrow> st
                       | Inr (Inr (Inl st)) \<Rightarrow> st | Inr (Inr (Inr st)) \<Rightarrow> st),
     \<lambda>x. case x of Inl (Inl st) \<Rightarrow> 2 | Inl (Inr st) \<Rightarrow> 0 | Inr (Inl st) \<Rightarrow> 1
                       | Inr (Inr (Inl st)) \<Rightarrow> 0 | Inr (Inr (Inr st)) \<Rightarrow> (0::nat)]",
    goal_cases)
  case 1
  then show ?case by simp
next
  case (2 st)
  then show ?case by simp
next
  case (3 st)
  then show ?case
    using forward_remaining [OF expr_forward_dom(3)] by (simp add: le_less)
next
  case (4 st tok)
  then show ?case by (simp add: remaining_advance)
next
  case (5 st tok)
  then show ?case
    using forward_remaining [OF expr_forward_dom(3), of "advance st"]
      remaining_advance [of st tok] by simp
next
  case (6 st)
  then show ?case by simp
next
  case (7 st)
  then show ?case
    using forward_remaining [OF expr_forward_dom(5)] by (simp add: le_less)
next
  case (8 st tok)
  then show ?case by (simp add: remaining_advance)
next
  case (9 st tok)
  then show ?case
    using forward_remaining [OF expr_forward_dom(5), of "advance st"]
      remaining_advance [of st tok] by simp
next
  case (10 st tok)
  then show ?case by (simp add: remaining_advance)
qed

declare parse_expr.simps [simp del] expr_loop.simps [simp del] parse_term.simps [simp del]
  term_loop.simps [simp del] parse_factor.simps [simp del]

lemma expr_total:
  "parse_expr_expr_loop_parse_term_term_loop_parse_factor_dom (Inl (Inl a))"
  "parse_expr_expr_loop_parse_term_term_loop_parse_factor_dom (Inl (Inr b))"
  "parse_expr_expr_loop_parse_term_term_loop_parse_factor_dom (Inr (Inl c))"
  "parse_expr_expr_loop_parse_term_term_loop_parse_factor_dom (Inr (Inr (Inl d)))"
  "parse_expr_expr_loop_parse_term_term_loop_parse_factor_dom (Inr (Inr (Inr e)))"
  by (induction a and b and c and d and e
      rule: parse_expr_expr_loop_parse_term_term_loop_parse_factor.induct)
     (auto intro: parse_expr_expr_loop_parse_term_term_loop_parse_factor.domintros)

lemma forward_parse_expr: "forward st (parse_expr st)"
  by (rule expr_forward_dom(1) [OF expr_total(1)])

lemma forward_parse_term: "forward st (parse_term st)"
  by (rule expr_forward_dom(3) [OF expr_total(3)])

lemma forward_parse_factor: "forward st (parse_factor st)"
  by (rule expr_forward_dom(5) [OF expr_total(5)])

subsection \<open>Statements and the program\<close>

text \<open>\<^verbatim>\<open>parse_assign\<close> (lines 140-144)\<close>

definition parse_assign :: "pstate \<Rightarrow> pstate" where
  "parse_assign st =
     (let st1 = do_match (Some ''IDENTIFICADOR'') None None st;
          st2 = do_match (Some ''SIMBOLO'') (Some ''='')
                  (Some (''Falta '=' en la asignaci'' @ [o_acute] @ ''n.'')) st1;
          st3 = parse_expr st2
      in do_match (Some ''DELIMITADOR'') (Some '';'')
           (Some (''Falta ';' al final de la asignaci'' @ [o_acute] @ ''n.'')) st3)"

text \<open>\<^verbatim>\<open>parse_stmt\<close> (lines 96-114)\<close>

definition parse_stmt :: "pstate \<Rightarrow> pstate" where
  "parse_stmt st =
     (case peek st 0 of
        None \<Rightarrow> err_append ''Fin inesperado dentro del bloque.'' st
      | Some tok \<Rightarrow>
          if tipo tok = ''PALABRA_RESERVADA'' \<and> lexema tok = ''int'' then parse_decl st
          else if tipo tok = ''PALABRA_RESERVADA'' \<and> lexema tok = ''read'' then parse_read st
          else if tipo tok = ''PALABRA_RESERVADA'' \<and> lexema tok = ''printf'' then parse_printf st
          else if tipo tok = ''PALABRA_RESERVADA'' \<and> lexema tok = ''end''
          then do_match (Some ''DELIMITADOR'') (Some '';'')
                 (Some (''Despu'' @ [e_acute] @ ''s de 'end' debe ir ';'.'')) (advance st)
          else if tipo tok = ''IDENTIFICADOR'' then parse_assign st
          else advance
                 (err_append
                    (''Sentencia no v'' @ [a_acute] @ ''lida iniciando en '' @ show_tok tok @
                     '' (l'' @ [i_acute] @ ''nea '' @ str_int (linea tok) @ '').'')
                    st))"

lemma forward_decl_loop: "forward st (decl_loop st)"
proof (induction st rule: decl_loop.induct)
  case (1 st)
  show ?case
  proof (cases "peek st 0")
    case None
    then show ?thesis by (simp add: decl_loop.simps forward_refl)
  next
    case (Some tok)
    show ?thesis
    proof (cases "tipo tok = ''DELIMITADOR'' \<and> lexema tok = '',''")
      case True
      let ?m = "do_match (Some ''IDENTIFICADOR'') None
                    (Some (''Se esperaba un identificador despu'' @ [e_acute] @ ''s de ','.''))
                    (advance st)"
      from 1 Some True have "forward ?m (decl_loop ?m)" by blast
      moreover have "forward st ?m"
        using forward_advance [OF Some] forward_do_match by (blast intro: forward_trans)
      ultimately have "forward st (decl_loop ?m)" by (rule forward_trans [rotated])
      with Some True show ?thesis by (subst decl_loop.simps) simp
    next
      case False
      with Some show ?thesis by (subst decl_loop.simps) (auto simp: forward_refl)
    qed
  qed
qed

lemma forward_then_match: "forward st st' \<Longrightarrow> forward st (do_match tp lx msg st')"
  by (erule forward_trans) (rule forward_do_match)

lemma forward_then_decl_loop: "forward st st' \<Longrightarrow> forward st (decl_loop st')"
  by (erule forward_trans) (rule forward_decl_loop)

lemma forward_then_expr: "forward st st' \<Longrightarrow> forward st (parse_expr st')"
  by (erule forward_trans) (rule forward_parse_expr)

lemmas forward_seq = forward_refl forward_then_match forward_then_decl_loop forward_then_expr

lemma forward_parse_decl: "forward st (parse_decl st)"
  unfolding parse_decl_def Let_def by (intro forward_seq)

lemma forward_parse_read: "forward st (parse_read st)"
  unfolding parse_read_def Let_def by (intro forward_seq)

lemma forward_parse_printf: "forward st (parse_printf st)"
  unfolding parse_printf_def Let_def by (intro forward_seq)

lemma forward_parse_assign: "forward st (parse_assign st)"
  unfolding parse_assign_def Let_def by (intro forward_seq)

lemma forward_parse_stmt: "forward st (parse_stmt st)"
proof (cases "peek st 0")
  case None
  then show ?thesis by (simp add: parse_stmt_def forward_err_append)
next
  case (Some tok)
  have "forward st (do_match tp lx msg (advance st))" for tp lx msg
    using forward_advance [OF Some] forward_do_match by (blast intro: forward_trans)
  with Some show ?thesis
    by (simp add: parse_stmt_def forward_parse_decl forward_parse_read forward_parse_printf
        forward_parse_assign forward_advance_err)
qed

text \<open>A statement that starts at a token consumes at least that token.\<close>

lemma do_match_first_moves:
  assumes "peek st 0 = Some tok" and "forward (do_match tp lx msg st) st'"
  shows "self_i st < self_i st'"
  using assms do_match_moves [OF assms(1), of tp lx msg] by (simp add: forward_def)

lemma parse_stmt_moves:
  assumes "peek st 0 = Some tok"
  shows "self_i st < self_i (parse_stmt st)"
proof -
  have decl: "self_i st < self_i (parse_decl st)"
    unfolding parse_decl_def Let_def
    by (rule do_match_first_moves [OF assms])
       (rule forward_refl | rule forward_then_match forward_then_decl_loop forward_then_expr)+
  have rd: "self_i st < self_i (parse_read st)"
    unfolding parse_read_def Let_def
    by (rule do_match_first_moves [OF assms])
       (rule forward_refl | rule forward_then_match forward_then_decl_loop forward_then_expr)+
  have pr: "self_i st < self_i (parse_printf st)"
    unfolding parse_printf_def Let_def
    by (rule do_match_first_moves [OF assms])
       (rule forward_refl | rule forward_then_match forward_then_decl_loop forward_then_expr)+
  have asg: "self_i st < self_i (parse_assign st)"
    unfolding parse_assign_def Let_def
    by (rule do_match_first_moves [OF assms])
       (rule forward_refl | rule forward_then_match forward_then_decl_loop forward_then_expr)+
  have en: "self_i st < self_i (do_match tp lx msg (advance st))" for tp lx msg
    using forward_do_match [of "advance st" tp lx msg]
    by (simp add: forward_def advance_def)
  have bad: "self_i st < self_i (advance (err_append m st))" for m
    by (simp add: advance_def err_append_def)
  from assms decl rd pr asg en bad show ?thesis
    by (simp add: parse_stmt_def)
qed

text \<open>The \<^verbatim>\<open>while\<close> loop of \<^verbatim>\<open>parse_programa\<close> (lines 91-92).\<close>

function stmt_loop :: "pstate \<Rightarrow> pstate" where
  "stmt_loop st =
     (case peek st 0 of
        Some tok \<Rightarrow>
          if \<not> (tipo tok = ''DELIMITADOR'' \<and> lexema tok = ''}'')
          then stmt_loop (parse_stmt st) else st
      | None \<Rightarrow> st)"
  by pat_completeness auto
termination
proof (relation "measure remaining", goal_cases)
  case 1
  then show ?case by simp
next
  case (2 st tok)
  then have "self_i st < self_i (parse_stmt st)" and "self_i st < int (length (self_t st))"
    and "self_t (parse_stmt st) = self_t st"
    using parse_stmt_moves [of st tok] peek_Some_iff [of st] forward_parse_stmt [of st]
    by (auto simp: forward_def)
  then show ?case by (simp add: remaining_def)
qed

declare stmt_loop.simps [simp del]

text \<open>\<^verbatim>\<open>parse_programa\<close> (lines 85-93)\<close>

definition parse_programa :: "pstate \<Rightarrow> pstate" where
  "parse_programa st =
     (let st1 = do_match (Some ''PALABRA_RESERVADA'') (Some ''programa'')
                  (Some ''Se esperaba la palabra 'programa' al inicio.'') st;
          st2 = do_match (Some ''IDENTIFICADOR'') None
                  (Some (''Falta el nombre del programa despu'' @ [e_acute] @
                         ''s de 'programa'.'')) st1;
          st3 = do_match (Some ''DELIMITADOR'') (Some ''('')
                  (Some (''Falta '(' despu'' @ [e_acute] @ ''s del nombre del programa.'')) st2;
          st4 = do_match (Some ''DELIMITADOR'') (Some '')'')
                  (Some (''Falta ')' despu'' @ [e_acute] @ ''s del nombre del programa.'')) st3;
          st5 = do_match (Some ''DELIMITADOR'') (Some ''{'')
                  (Some ''Falta '{' para abrir el bloque del programa.'') st4;
          st6 = stmt_loop st5
      in do_match (Some ''DELIMITADOR'') (Some ''}'')
           (Some ''Falta '}' para cerrar el programa.'') st6)"

text \<open>
  The exceptions of a run: \<^verbatim>\<open>IndexError\<close> of a list index out of range, and
  \<^verbatim>\<open>RecursionError\<close> of a call for which the call stack has no frame left. The functions
  of this section have a call stack without bound and never raise the second; the last
  section gives the same functions with the bound of CPython.

  A list index as Python evaluates it: a negative index counts from the end, and an index
  out of range raises \<^verbatim>\<open>IndexError\<close>.
\<close>

datatype py_error = IndexError | RecursionError

definition py_index :: "'a list \<Rightarrow> int \<Rightarrow> py_error + 'a" where
  "py_index xs k =
     (let n = int (length xs);
          j = (if k < 0 then n + k else k)
      in if 0 \<le> j \<and> j < n then Inr (xs ! nat j) else Inl IndexError)"

text \<open>The dictionary that \<^verbatim>\<open>analizar_sintactico\<close> returns.\<close>

record parse_result =
  correcto :: bool
  errores :: "string list"

text \<open>
  \<^verbatim>\<open>analizar_sintactico\<close> (lines 177-184); it does not read \<^verbatim>\<open>codigo\<close>. Here the call
  stack has no bound; \<open>analizar_sintactico_rl\<close> of the last section is the same function
  with the bound.
\<close>

definition analizar_sintactico :: "string \<Rightarrow> token list \<Rightarrow> py_error + parse_result" where
  "analizar_sintactico codigo tokens =
     (let p = parse_programa (Parser tokens)
      in if self_i p < int (length tokens)
         then (case py_index tokens (self_i p) of
                 Inl e \<Rightarrow> Inl e
               | Inr tok \<Rightarrow>
                   (let errs = self_err p @
                          [''Tokens extra despu'' @ [e_acute] @
                           ''s de cerrar el programa, empezando en '' @ [APOS] @ lexema tok @
                           [APOS] @ '' (l'' @ [i_acute] @ ''nea '' @ str_int (linea tok) @ '').'']
                    in Inr \<lparr>correcto = (length errs = 0), errores = errs\<rparr>))
         else Inr \<lparr>correcto = (length (self_err p) = 0), errores = self_err p\<rparr>)"

subsection \<open>The cursor only moves forward, and not past the tokens\<close>

lemma forward_stmt_loop: "forward st (stmt_loop st)"
proof (induction st rule: stmt_loop.induct)
  case (1 st)
  show ?case
  proof (cases "peek st 0")
    case None
    then show ?thesis by (simp add: stmt_loop.simps forward_refl)
  next
    case (Some tok)
    show ?thesis
    proof (cases "tipo tok = ''DELIMITADOR'' \<and> lexema tok = ''}''")
      case True
      with Some show ?thesis by (subst stmt_loop.simps) (simp add: forward_refl)
    next
      case False
      with 1 Some have "forward (parse_stmt st) (stmt_loop (parse_stmt st))" by blast
      with forward_parse_stmt have "forward st (stmt_loop (parse_stmt st))"
        by (rule forward_trans)
      with Some False show ?thesis by (subst stmt_loop.simps) auto
    qed
  qed
qed

lemma forward_then_stmt_loop: "forward st st' \<Longrightarrow> forward st (stmt_loop st')"
  by (erule forward_trans) (rule forward_stmt_loop)

lemma forward_parse_programa: "forward st (parse_programa st)"
  unfolding parse_programa_def Let_def
  by (intro forward_seq forward_then_stmt_loop)

lemma cursor_after_parse:
  "0 \<le> self_i (parse_programa (Parser tokens)) \<and>
   self_i (parse_programa (Parser tokens)) \<le> int (length tokens) \<and>
   self_t (parse_programa (Parser tokens)) = tokens \<and>
   int (advances (parse_programa (Parser tokens))) = self_i (parse_programa (Parser tokens))"
  using forward_parse_programa [of "Parser tokens"]
  by (simp add: forward_def Parser_def)

lemma length_finditer: "length (finditer pos s) \<le> length s"
proof (induction pos s rule: finditer.induct)
  case (1 pos s)
  show ?case
  proof (cases "regex_tokens s")
    case None
    show ?thesis
    proof (cases s)
      case Nil
      with None show ?thesis by (subst finditer.simps) simp
    next
      case (Cons c r)
      from 1(1) [OF None Cons] have "length (finditer (pos + 1) r) \<le> length r" .
      with None Cons show ?thesis by (subst finditer.simps) simp
    qed
  next
    case (Some a)
    obtain g n where a: "a = (g, n)" by (cases a)
    from Some a have n: "0 < n \<and> n \<le> length s" by (auto dest: regex_tokens_pos)
    from 1(2) [OF Some a [symmetric]] have "length (finditer (pos + n) (drop n s)) \<le> length s - n" by simp
    with n have "Suc (length (finditer (pos + n) (drop n s))) \<le> length s" by linarith
    with Some a show ?thesis by (simp add: finditer.simps [of pos s])
  qed
qed

lemma length_lex_loop: "length (lex_loop lineas ms lc) \<le> length ms"
proof (induction ms arbitrary: lc)
  case Nil
  then show ?case by simp
next
  case (Cons m ms)
  obtain tp start lexeme where m: "m = (tp, start, lexeme)" by (cases m)
  have "length (lex_loop lineas ms (advance_line lineas start lc)) \<le> length ms"
    by (rule Cons.IH)
  then show ?case by (simp add: m Let_def)
qed

lemma length_analizar_lexico: "length (analizar_lexico codigo) \<le> length codigo"
  unfolding analizar_lexico_def
  using length_lex_loop length_finditer le_trans by blast

lemma parse_factor_moves:
  assumes "peek st 0 = Some tok"
  shows "self_i st < self_i (parse_factor st)"
proof -
  have adv: "self_i st < self_i (advance st)" by (simp add: advance_def)
  have bad: "self_i st < self_i (advance (err_append m st))" for m
    by (simp add: advance_def err_append_def)
  have par: "self_i st < self_i (do_match tp lx msg (parse_expr (advance st)))" for tp lx msg
    using forward_then_match [OF forward_parse_expr, of "advance st" tp lx msg]
    by (simp add: forward_def advance_def)
  from assms adv bad par show ?thesis
    by (subst parse_factor.simps) simp
qed

lemma stays_at_end:
  assumes "peek st 0 = None"
  shows "self_i (parse_stmt st) = self_i st" and "self_i (parse_factor st) = self_i st"
    and "self_i (snd (match tp lx msg st)) = self_i st"
  using assms
  by (simp_all add: parse_stmt_def parse_factor.simps [of st] match_def err_append_def)

text \<open>
  The methods of a \<^verbatim>\<open>Parser\<close> object, as operations on its state, and a sequence of calls
  of them.
\<close>

datatype parser_op =
    Peek int
  | Match "string option" "string option" "string option"
  | Parse_programa | Parse_stmt | Parse_decl | Parse_read | Parse_printf | Parse_assign
  | Parse_expr | Parse_term | Parse_factor

fun run_op :: "parser_op \<Rightarrow> pstate \<Rightarrow> pstate" where
  "run_op (Peek k) st = st"
| "run_op (Match tp lx msg) st = snd (match tp lx msg st)"
| "run_op Parse_programa st = parse_programa st"
| "run_op Parse_stmt st = parse_stmt st"
| "run_op Parse_decl st = parse_decl st"
| "run_op Parse_read st = parse_read st"
| "run_op Parse_printf st = parse_printf st"
| "run_op Parse_assign st = parse_assign st"
| "run_op Parse_expr st = parse_expr st"
| "run_op Parse_term st = parse_term st"
| "run_op Parse_factor st = parse_factor st"

definition run_ops :: "parser_op list \<Rightarrow> pstate \<Rightarrow> pstate" where
  "run_ops ops st = foldl (\<lambda>s op. run_op op s) st ops"

lemma forward_run_op: "forward st (run_op op st)"
  by (cases op)
     (simp_all add: forward_refl forward_do_match [unfolded do_match_def] forward_parse_programa
        forward_parse_stmt forward_parse_decl forward_parse_read forward_parse_printf
        forward_parse_assign forward_parse_expr forward_parse_term forward_parse_factor)

lemma forward_run_ops: "forward st (run_ops ops st)"
proof (induction ops arbitrary: st)
  case Nil
  then show ?case by (simp add: run_ops_def forward_refl)
next
  case (Cons op ops)
  have "forward (run_op op st) (run_ops ops (run_op op st))" by (rule Cons.IH)
  with forward_run_op [of st op] have "forward st (run_ops ops (run_op op st))"
    by (rule forward_trans)
  then show ?case by (simp add: run_ops_def)
qed

section \<open>Properties of the tokenizer and the parser\<close>

lemmas class_defs =
  is_digit_def is_ident_start_def is_word_def is_space_def is_linebreak_def code_def
  LF_def CR_def QUOTE_def

lemmas re_defs =
  re_LINE_COMMENT_def re_NUMERO_def re_CADENA_def re_IDENTIFICADOR_def re_SIMBOLO_def
  re_DELIMITADOR_def re_ESPACIO_def re_DESCONOCIDO_def

subsection \<open>The two programs of the specification\<close>

definition valid_source :: string where
  "valid_source =
     ''programa p(){ int a; read a; printf('' @ [QUOTE] @ ''hi'' @ [QUOTE] @ ''); end; }''"

definition missing_semicolon_source :: string where
  "missing_semicolon_source =
     ''programa p(){ int a printf('' @ [QUOTE] @ ''x'' @ [QUOTE] @ ''); end; }''"

text \<open>
  Claim C1. The tokenizer and then the parser, run on the text
  \<^verbatim>\<open>programa p(){ int a; read a; printf("hi"); end; }\<close>, return the result with
  \<^verbatim>\<open>correcto\<close> true and no diagnostic.
\<close>

theorem valid_program_accepted:
  "analizar_sintactico valid_source (analizar_lexico valid_source) =
     Inr \<lparr>correcto = True, errores = []\<rparr>"
  by code_simp

text \<open>
  Claim C8. Each two-character operator is one \<^verbatim>\<open>SIMBOLO\<close> match of length two, whatever
  follows it, and the text \<^verbatim>\<open>a<=b\<close> gives exactly the three tokens identifier \<^verbatim>\<open>a\<close>,
  operator \<^verbatim>\<open><=\<close> and identifier \<^verbatim>\<open>b\<close>: the operator is not split.
\<close>

theorem operator_longest_match:
  "regex_tokens (''<='' @ rest) = Some (''SIMBOLO'', 2) \<and>
   regex_tokens (''>='' @ rest) = Some (''SIMBOLO'', 2) \<and>
   regex_tokens (''=='' @ rest) = Some (''SIMBOLO'', 2) \<and>
   regex_tokens (''!='' @ rest) = Some (''SIMBOLO'', 2) \<and>
   regex_tokens (''++'' @ rest) = Some (''SIMBOLO'', 2) \<and>
   regex_tokens (''--'' @ rest) = Some (''SIMBOLO'', 2) \<and>
   analizar_lexico ''a<=b'' =
     [\<lparr>tipo = ''IDENTIFICADOR'', lexema = ''a'', linea = 1, columna = 1\<rparr>,
      \<lparr>tipo = ''SIMBOLO'', lexema = ''<='', linea = 1, columna = 2\<rparr>,
      \<lparr>tipo = ''IDENTIFICADOR'', lexema = ''b'', linea = 1, columna = 4\<rparr>]"
proof -
  have "analizar_lexico ''a<=b'' =
     [\<lparr>tipo = ''IDENTIFICADOR'', lexema = ''a'', linea = 1, columna = 1\<rparr>,
      \<lparr>tipo = ''SIMBOLO'', lexema = ''<='', linea = 1, columna = 2\<rparr>,
      \<lparr>tipo = ''IDENTIFICADOR'', lexema = ''b'', linea = 1, columna = 4\<rparr>]"
    by code_simp
  then show ?thesis
    by (simp add: regex_tokens_def token_specs_def re_defs class_defs)
qed

text \<open>
  Whether a text occurs in a diagnostic, and whether the diagnostic says that a \<^verbatim>\<open>;\<close> is
  missing: the five messages of the source about a missing \<^verbatim>\<open>;\<close> start with
  \<^verbatim>\<open>Falta ';'\<close>.
\<close>

fun occurs :: "string \<Rightarrow> string \<Rightarrow> bool" where
  "occurs p [] = (p = [])"
| "occurs p (c # s) = (take (length p) (c # s) = p \<or> occurs p s)"

definition cites_missing_semicolon :: "string \<Rightarrow> bool" where
  "cites_missing_semicolon d = occurs (''Falta '' @ [APOS] @ '';'' @ [APOS]) d"

text \<open>
  Claim C9, as the specification states it, fails: a diagnostic that cites the missing
  \<^verbatim>\<open>;\<close> near the line of the declaration. On the text
  \<^verbatim>\<open>programa p(){ int a printf("x"); end; }\<close> one diagnostic says that a \<^verbatim>\<open>;\<close> is missing;
  it is the message that \<^verbatim>\<open>parse_decl\<close> passes to \<^verbatim>\<open>match\<close> (line 123), which \<^verbatim>\<open>match\<close>
  appends as it is (lines 76-78), and it has no digit in it, so no line.
\<close>

theorem missing_semicolon_without_line_counterexample:
  "filter cites_missing_semicolon
     (errores (projr (analizar_sintactico missing_semicolon_source
                        (analizar_lexico missing_semicolon_source)))) =
     [''Falta ';' al final de la declaraci'' @ [o_acute] @ ''n.''] \<and>
   filter is_digit (''Falta ';' al final de la declaraci'' @ [o_acute] @ ''n.'') = []"
  by code_simp

text \<open>
  Claim C9, amended. On the text \<^verbatim>\<open>programa p(){ int a printf("x"); end; }\<close> the result has
  \<^verbatim>\<open>correcto\<close> false, and its first diagnostic says that the \<^verbatim>\<open>;\<close> at the end of the
  declaration is missing, without a line. The parser has then dropped \<^verbatim>\<open>printf\<close>, and the
  diagnostics that carry a line are the four about the tokens up to \<^verbatim>\<open>end\<close>, reported as
  statements that are not valid.
\<close>

theorem missing_semicolon_reported:
  "analizar_sintactico missing_semicolon_source (analizar_lexico missing_semicolon_source) =
     Inr \<lparr>correcto = False,
          errores =
            [''Falta ';' al final de la declaraci'' @ [o_acute] @ ''n.'',
             ''Sentencia no v'' @ [a_acute] @ ''lida iniciando en DELIMITADOR('(') (l'' @
               [i_acute] @ ''nea 1).'',
             ''Sentencia no v'' @ [a_acute] @ ''lida iniciando en CADENA('' @ [APOS, QUOTE] @
               ''x'' @ [QUOTE, APOS] @ '') (l'' @ [i_acute] @ ''nea 1).'',
             ''Sentencia no v'' @ [a_acute] @ ''lida iniciando en DELIMITADOR(')') (l'' @
               [i_acute] @ ''nea 1).'',
             ''Sentencia no v'' @ [a_acute] @ ''lida iniciando en DELIMITADOR(';') (l'' @
               [i_acute] @ ''nea 1).'']\<rparr>"
  by code_simp

subsection \<open>The parser\<close>

text \<open>Two tokens and a message of \<^verbatim>\<open>parse_decl\<close>, for the concrete instances below.\<close>

definition tok_printf :: token where
  "tok_printf = \<lparr>tipo = ''PALABRA_RESERVADA'', lexema = ''printf'', linea = 1, columna = 21\<rparr>"

definition tok_semicolon :: token where
  "tok_semicolon = \<lparr>tipo = ''DELIMITADOR'', lexema = '';'', linea = 7, columna = 3\<rparr>"

definition msg_decl :: string where
  "msg_decl = ''Falta ';' al final de la declaraci'' @ [o_acute] @ ''n.''"

text \<open>
  Claim C2. The parser terminates (its functions are total), and the number of executions
  of \<^verbatim>\<open>self.i += 1\<close> in a run of \<^verbatim>\<open>parse_programa\<close> is the final cursor, which is at most the
  number of tokens, hence at most the length of the text the tokens come from: the
  constant is 1. Where there is a current token, \<^verbatim>\<open>match\<close> moves the cursor by exactly one,
  and \<^verbatim>\<open>parse_stmt\<close> and \<^verbatim>\<open>parse_factor\<close> by at least one, whether they match or not; where
  there is none, they return with the cursor where it was.
\<close>

theorem parser_advances_bounded:
  "advances (parse_programa (Parser tokens)) \<le> length tokens \<and>
   int (advances (parse_programa (Parser tokens))) = self_i (parse_programa (Parser tokens)) \<and>
   advances (parse_programa (Parser (analizar_lexico codigo))) \<le> length codigo \<and>
   (peek st 0 = Some tok \<longrightarrow>
      self_i (snd (match tp lx msg st)) = self_i st + 1 \<and>
      self_i st < self_i (parse_stmt st) \<and> self_i st < self_i (parse_factor st)) \<and>
   (peek st 0 = None \<longrightarrow>
      self_i (snd (match tp lx msg st)) = self_i st \<and>
      self_i (parse_stmt st) = self_i st \<and> self_i (parse_factor st) = self_i st)"
proof -
  have bound: "advances (parse_programa (Parser toks)) \<le> length toks" for toks
    using cursor_after_parse [of toks] by linarith
  have "advances (parse_programa (Parser (analizar_lexico codigo))) \<le> length codigo"
    using bound [of "analizar_lexico codigo"] length_analizar_lexico [of codigo] by linarith
  moreover have "peek st 0 = Some tok \<longrightarrow>
      self_i (snd (match tp lx msg st)) = self_i st + 1 \<and>
      self_i st < self_i (parse_stmt st) \<and> self_i st < self_i (parse_factor st)"
    using do_match_moves [of st tok tp lx msg] parse_stmt_moves [of st tok]
      parse_factor_moves [of st tok]
    by (simp add: do_match_def)
  moreover have "peek st 0 = None \<longrightarrow>
      self_i (snd (match tp lx msg st)) = self_i st \<and>
      self_i (parse_stmt st) = self_i st \<and> self_i (parse_factor st) = self_i st"
    using stays_at_end(1) [of st] stays_at_end(2) [of st] stays_at_end(3) [of st tp lx msg]
    by blast
  ultimately show ?thesis
    using bound [of tokens] cursor_after_parse [of tokens] by blast
qed

theorem parser_advances_bounded_witness:
  "peek (Parser [tok_printf]) 0 = Some tok_printf \<and>
   self_i (snd (match None None None (Parser [tok_printf]))) = self_i (Parser [tok_printf]) + 1 \<and>
   self_i (Parser [tok_printf]) < self_i (parse_stmt (Parser [tok_printf])) \<and>
   self_i (Parser [tok_printf]) < self_i (parse_factor (Parser [tok_printf])) \<and>
   advances (parse_programa (Parser [tok_printf])) \<le> length [tok_printf] \<and>
   peek (Parser []) 0 = None \<and>
   self_i (parse_stmt (Parser [])) = self_i (Parser []) \<and>
   self_i (parse_factor (Parser [])) = self_i (Parser [])"
  using parser_advances_bounded [where tokens = "[tok_printf]" and codigo = "''printf''"
      and st = "Parser [tok_printf]" and tok = tok_printf and tp = None and lx = None
      and msg = None]
    parser_advances_bounded [where tokens = "[]" and codigo = "[]"
      and st = "Parser []" and tok = tok_printf and tp = None and lx = None and msg = None]
  by (simp add: peek_def Parser_def Let_def)

text \<open>
  Claim C10. After any sequence of calls of the parser's methods on a new \<^verbatim>\<open>Parser\<close>, the
  cursor is between 0 and the number of tokens, and the token list is the one given. A call
  of \<^verbatim>\<open>match\<close> with the cursor at the end of the token list returns \<^verbatim>\<open>None\<close> and appends
  one diagnostic; it changes nothing else, so the cursor stays.
\<close>

theorem cursor_in_bounds:
  "0 \<le> self_i (run_ops ops (Parser tokens)) \<and>
   self_i (run_ops ops (Parser tokens)) \<le> int (length tokens) \<and>
   self_t (run_ops ops (Parser tokens)) = tokens \<and>
   (self_i st = int (length (self_t st)) \<longrightarrow>
      match tp lx msg st =
        (None, st\<lparr>self_err := self_err st @
                  [case msg of None \<Rightarrow> default_msg tp lx None | Some m \<Rightarrow> m]\<rparr>))"
proof -
  have "self_i st = int (length (self_t st)) \<longrightarrow>
      match tp lx msg st =
        (None, st\<lparr>self_err := self_err st @
                  [case msg of None \<Rightarrow> default_msg tp lx None | Some m \<Rightarrow> m]\<rparr>)"
    by (simp add: match_def peek_def Let_def err_append_def)
  then show ?thesis
    using forward_run_ops [of "Parser tokens" ops]
    by (simp add: forward_def Parser_def)
qed

theorem cursor_in_bounds_witness:
  "self_i (Parser [tok_printf]\<lparr>self_i := 1\<rparr>) =
     int (length (self_t (Parser [tok_printf]\<lparr>self_i := 1\<rparr>))) \<and>
   match (Some ''DELIMITADOR'') (Some '';'') (Some msg_decl) (Parser [tok_printf]\<lparr>self_i := 1\<rparr>) =
     (None, \<lparr>self_t = [tok_printf], self_i = 1, self_err = [msg_decl], advances = 0\<rparr>) \<and>
   0 \<le> self_i (run_ops [Parse_factor, Match None None None, Parse_programa, Peek 3]
                  (Parser [tok_printf, tok_semicolon])) \<and>
   self_i (run_ops [Parse_factor, Match None None None, Parse_programa, Peek 3]
             (Parser [tok_printf, tok_semicolon])) \<le> 2"
  using cursor_in_bounds [where st = "Parser [tok_printf]\<lparr>self_i := 1\<rparr>"
      and tp = "Some ''DELIMITADOR''" and lx = "Some '';''" and msg = "Some msg_decl"
      and ops = "[Parse_factor, Match None None None, Parse_programa, Peek 3]"
      and tokens = "[tok_printf, tok_semicolon]"]
  by (simp add: Parser_def)

text \<open>
  Claim C6, as the specification states it, says that the diagnostic of a failed \<^verbatim>\<open>match\<close>
  describes what was expected and what was found, with the line number. That is the text
  \<^term>\<open>default_msg\<close>, and \<^verbatim>\<open>match\<close> appends it only when the caller passes no message. With the
  message that \<^verbatim>\<open>parse_decl\<close> passes, the diagnostic for the token \<^verbatim>\<open>printf\<close> of line 1 is
  that message alone: it names neither the token found nor its line.
\<close>

theorem match_custom_message_counterexample:
  "match (Some ''DELIMITADOR'') (Some '';'') (Some msg_decl) (Parser [tok_printf]) =
     (None, \<lparr>self_t = [tok_printf], self_i = 1, self_err = [msg_decl], advances = 1\<rparr>) \<and>
   default_msg (Some ''DELIMITADOR'') (Some '';'') (Some tok_printf) =
     ''Se esperaba DELIMITADOR y ';' pero se encontr'' @ [o_acute] @
     '' PALABRA_RESERVADA('printf') (l'' @ [i_acute] @ ''nea 1).'' \<and>
   msg_decl \<noteq> default_msg (Some ''DELIMITADOR'') (Some '';'') (Some tok_printf) \<and>
   snd (match (Some ''DELIMITADOR'') (Some '';'') (Some msg_decl) (Parser [tok_printf])) \<noteq>
     err_append (default_msg (Some ''DELIMITADOR'') (Some '';'') (Some tok_printf))
       (advance (Parser [tok_printf]))"
  by code_simp

text \<open>
  Claim C6, amended. \<^verbatim>\<open>match\<close> has a current token exactly when the cursor is within the
  token list. When the current token satisfies the kind and lexeme that are given, \<^verbatim>\<open>match\<close>
  returns it and moves the cursor by one; the diagnostics stay as they are. Otherwise it
  returns \<^verbatim>\<open>None\<close> and appends exactly one diagnostic: the caller's message when one is
  passed, and else the default text, which names the expected kind and lexeme and the token
  found with its line number, or \<^verbatim>\<open>EOF\<close> and \<^verbatim>\<open>-\<close> for the line when the cursor is past the
  last token; and it moves the cursor by one if there is a current token, and not at all if
  there is none.
\<close>

theorem match_behaviour:
  "(peek st 0 = None \<longleftrightarrow> self_i st < 0 \<or> int (length (self_t st)) \<le> self_i st) \<and>
   (peek st 0 = Some tok \<longrightarrow> tok = self_t st ! nat (self_i st)) \<and>
   (peek st 0 = Some tok \<and> (tp = None \<or> tp = Some (tipo tok)) \<and>
      (lx = None \<or> lx = Some (lexema tok)) \<longrightarrow>
      match tp lx msg st =
        (Some tok, st\<lparr>self_i := self_i st + 1, advances := advances st + 1\<rparr>)) \<and>
   (peek st 0 = Some tok \<and> \<not> ((tp = None \<or> tp = Some (tipo tok)) \<and>
      (lx = None \<or> lx = Some (lexema tok))) \<longrightarrow>
      match tp lx msg st =
        (None, st\<lparr>self_i := self_i st + 1,
                  self_err := self_err st @
                    [case msg of None \<Rightarrow> default_msg tp lx (Some tok) | Some m \<Rightarrow> m],
                  advances := advances st + 1\<rparr>)) \<and>
   (peek st 0 = None \<longrightarrow>
      match tp lx msg st =
        (None, st\<lparr>self_err := self_err st @
                    [case msg of None \<Rightarrow> default_msg tp lx None | Some m \<Rightarrow> m]\<rparr>)) \<and>
   (tp' \<noteq> [] \<and> lx' \<noteq> [] \<longrightarrow>
      default_msg (Some tp') (Some lx') (Some tok) =
        ''Se esperaba '' @ tp' @ '' y '' @ [APOS] @ lx' @ [APOS] @ '' pero se encontr'' @
        [o_acute] @ '' '' @ tipo tok @ ''('' @ [APOS] @ lexema tok @ [APOS] @ '')'' @
        '' (l'' @ [i_acute] @ ''nea '' @ str_int (linea tok) @ '').'' \<and>
      default_msg (Some tp') (Some lx') None =
        ''Se esperaba '' @ tp' @ '' y '' @ [APOS] @ lx' @ [APOS] @ '' pero se encontr'' @
        [o_acute] @ '' EOF (l'' @ [i_acute] @ ''nea -).'')"
proof -
  have p1: "peek st 0 = None \<longleftrightarrow> self_i st < 0 \<or> int (length (self_t st)) \<le> self_i st"
    by (auto simp: peek_def Let_def)
  have p2: "peek st 0 = Some tok \<longrightarrow> tok = self_t st ! nat (self_i st)"
    by (auto simp: peek_def Let_def split: if_splits)
  have m1: "peek st 0 = Some tok \<and> (tp = None \<or> tp = Some (tipo tok)) \<and>
      (lx = None \<or> lx = Some (lexema tok)) \<longrightarrow>
      match tp lx msg st =
        (Some tok, st\<lparr>self_i := self_i st + 1, advances := advances st + 1\<rparr>)"
    by (cases tp; cases lx) (auto simp: match_def advance_def)
  have m2: "peek st 0 = Some tok \<and> \<not> ((tp = None \<or> tp = Some (tipo tok)) \<and>
      (lx = None \<or> lx = Some (lexema tok))) \<longrightarrow>
      match tp lx msg st =
        (None, st\<lparr>self_i := self_i st + 1,
                  self_err := self_err st @
                    [case msg of None \<Rightarrow> default_msg tp lx (Some tok) | Some m \<Rightarrow> m],
                  advances := advances st + 1\<rparr>)"
    by (cases tp; cases lx) (auto simp: match_def advance_def err_append_def)
  have m3: "peek st 0 = None \<longrightarrow>
      match tp lx msg st =
        (None, st\<lparr>self_err := self_err st @
                    [case msg of None \<Rightarrow> default_msg tp lx None | Some m \<Rightarrow> m]\<rparr>)"
    by (simp add: match_def err_append_def)
  have d: "tp' \<noteq> [] \<and> lx' \<noteq> [] \<longrightarrow>
      default_msg (Some tp') (Some lx') (Some tok) =
        ''Se esperaba '' @ tp' @ '' y '' @ [APOS] @ lx' @ [APOS] @ '' pero se encontr'' @
        [o_acute] @ '' '' @ tipo tok @ ''('' @ [APOS] @ lexema tok @ [APOS] @ '')'' @
        '' (l'' @ [i_acute] @ ''nea '' @ str_int (linea tok) @ '').'' \<and>
      default_msg (Some tp') (Some lx') None =
        ''Se esperaba '' @ tp' @ '' y '' @ [APOS] @ lx' @ [APOS] @ '' pero se encontr'' @
        [o_acute] @ '' EOF (l'' @ [i_acute] @ ''nea -).''"
    by (simp add: default_msg_def show_tok_def)
  from p1 p2 m1 m2 m3 d show ?thesis by blast
qed

theorem match_behaviour_witness:
  "peek (Parser [tok_printf]) 0 = Some tok_printf \<and>
   match (Some ''DELIMITADOR'') (Some '';'') (Some msg_decl) (Parser [tok_printf]) =
     (None, \<lparr>self_t = [tok_printf], self_i = 1, self_err = [msg_decl], advances = 1\<rparr>) \<and>
   match (Some ''DELIMITADOR'') (Some '';'') None (Parser [tok_printf]) =
     (None, \<lparr>self_t = [tok_printf], self_i = 1,
              self_err = [''Se esperaba DELIMITADOR y ';' pero se encontr'' @ [o_acute] @
                          '' PALABRA_RESERVADA('printf') (l'' @ [i_acute] @ ''nea 1).''],
              advances = 1\<rparr>) \<and>
   peek (Parser [tok_semicolon]) 0 = Some tok_semicolon \<and>
   match (Some ''DELIMITADOR'') (Some '';'') (Some msg_decl) (Parser [tok_semicolon]) =
     (Some tok_semicolon,
      \<lparr>self_t = [tok_semicolon], self_i = 1, self_err = [], advances = 1\<rparr>) \<and>
   peek (Parser []) 0 = None \<and>
   match (Some ''DELIMITADOR'') (Some '';'') None (Parser []) =
     (None, \<lparr>self_t = [], self_i = 0,
              self_err = [''Se esperaba DELIMITADOR y ';' pero se encontr'' @ [o_acute] @
                          '' EOF (l'' @ [i_acute] @ ''nea -).''],
              advances = 0\<rparr>)"
proof -
  have one: "str_int 1 = ''1''" by code_simp
  show ?thesis
  using match_behaviour [where st = "Parser [tok_printf]" and tok = tok_printf
      and tp = "Some ''DELIMITADOR''" and lx = "Some '';''" and msg = "Some msg_decl"
      and tp' = "''DELIMITADOR''" and lx' = "'';''"]
    match_behaviour [where st = "Parser [tok_printf]" and tok = tok_printf
      and tp = "Some ''DELIMITADOR''" and lx = "Some '';''" and msg = None
      and tp' = "''DELIMITADOR''" and lx' = "'';''"]
    match_behaviour [where st = "Parser [tok_semicolon]" and tok = tok_semicolon
      and tp = "Some ''DELIMITADOR''" and lx = "Some '';''" and msg = "Some msg_decl"
      and tp' = "''DELIMITADOR''" and lx' = "'';''"]
    match_behaviour [where st = "Parser []" and tok = tok_semicolon
      and tp = "Some ''DELIMITADOR''" and lx = "Some '';''" and msg = None
      and tp' = "''DELIMITADOR''" and lx' = "'';''"]
  by (simp add: peek_def Parser_def Let_def tok_printf_def tok_semicolon_def APOS_def one)
qed

subsection \<open>The tokenizer\<close>

text \<open>
  Every position of a text that is not its end has a match: \<^verbatim>\<open>DESCONOCIDO\<close> takes any
  character but the newline, which \<^verbatim>\<open>ESPACIO\<close> takes. So \<^verbatim>\<open>finditer\<close> never moves on
  without a match.
\<close>

lemma first_match_None: "first_match ps s = None \<Longrightarrow> (name, p) \<in> set ps \<Longrightarrow> p s = None"
  by (induction ps) (auto split: option.splits)

lemma first_match_SomeD:
  "first_match ps s = Some (g, n) \<Longrightarrow> \<exists>p. (g, p) \<in> set ps \<and> p s = Some n"
  by (induction ps) (auto split: option.splits)

lemma is_space_LF: "is_space LF"
  by (simp add: class_defs)

lemma regex_tokens_Some: "s \<noteq> [] \<Longrightarrow> \<exists>g n. regex_tokens s = Some (g, n)"
proof (cases s)
  case Nil
  assume "s \<noteq> []"
  with Nil show ?thesis by simp
next
  case (Cons c r)
  show ?thesis
  proof (rule ccontr)
    assume "\<nexists>g n. regex_tokens s = Some (g, n)"
    then have none: "first_match token_specs s = None"
      by (cases "regex_tokens s") (auto simp: regex_tokens_def)
    have "re_ESPACIO s = None"
      by (rule first_match_None [OF none, of "''ESPACIO''"]) (simp add: token_specs_def)
    moreover have "re_DESCONOCIDO s = None"
      by (rule first_match_None [OF none, of "''DESCONOCIDO''"]) (simp add: token_specs_def)
    ultimately show False
      using Cons is_space_LF
      by (auto simp: re_ESPACIO_def re_DESCONOCIDO_def Let_def split: if_splits)
  qed
qed

lemma finditer_Nil: "finditer pos [] = []"
  by (subst finditer.simps) (simp add: regex_tokens_def token_specs_def re_defs)

lemma finditer_Cons:
  assumes "regex_tokens s = Some (g, n)"
  shows "finditer pos s = (g, pos, take n s) # finditer (pos + n) (drop n s)"
  using assms by (subst finditer.simps) simp

text \<open>Induction over the matches of a text.\<close>

lemma finditer_induct [consumes 0, case_names Nil Match]:
  assumes "\<And>pos. P pos []"
    and "\<And>pos s g n. s \<noteq> [] \<Longrightarrow> regex_tokens s = Some (g, n) \<Longrightarrow> 0 < n \<Longrightarrow> n \<le> length s \<Longrightarrow>
           P (pos + n) (drop n s) \<Longrightarrow> P pos s"
  shows "P pos s"
proof (induction s arbitrary: pos rule: length_induct)
  case (1 s)
  show ?case
  proof (cases "s = []")
    case True
    with assms(1) show ?thesis by simp
  next
    case False
    then obtain g n where m: "regex_tokens s = Some (g, n)"
      using regex_tokens_Some by blast
    then have n: "0 < n \<and> n \<le> length s" by (rule regex_tokens_pos)
    with False have "length (drop n s) < length s" by simp
    with 1 have "P (pos + n) (drop n s)" by blast
    with False m n show ?thesis by (blast intro: assms(2))
  qed
qed

lemma concat_finditer: "concat (map (\<lambda>(g, p, w). w) (finditer pos s)) = s"
proof (induction pos s rule: finditer_induct)
  case (Nil pos)
  then show ?case by (simp add: finditer_Nil)
next
  case (Match pos s g n)
  then show ?case by (simp add: finditer_Cons)
qed

lemma finditer_lexemes_nonempty: "(g, p, w) \<in> set (finditer pos s) \<Longrightarrow> w \<noteq> []"
proof (induction pos s rule: finditer_induct)
  case (Nil pos)
  then show ?case by (simp add: finditer_Nil)
next
  case (Match pos s g' n)
  then show ?case by (auto simp: finditer_Cons)
qed

lemma finditer_starts:
  "k < length (finditer pos s) \<Longrightarrow>
     fst (snd (finditer pos s ! k)) =
       pos + length (concat (map (\<lambda>(g, p, w). w) (take k (finditer pos s))))"
proof (induction pos s arbitrary: k rule: finditer_induct)
  case (Nil pos)
  then show ?case by (simp add: finditer_Nil)
next
  case (Match pos s g n)
  show ?case
  proof (cases k)
    case 0
    with Match show ?thesis by (simp add: finditer_Cons)
  next
    case (Suc j)
    with Match.prems Match.hyps have "j < length (finditer (pos + n) (drop n s))"
      by (simp add: finditer_Cons)
    from Match.IH [OF this] Suc Match.hyps show ?thesis
      by (simp add: finditer_Cons min_absorb2)
  qed
qed

lemma finditer_start_range:
  "(g, p, w) \<in> set (finditer pos s) \<Longrightarrow> pos \<le> p \<and> p < pos + length s"
proof (induction pos s rule: finditer_induct)
  case (Nil pos)
  then show ?case by (simp add: finditer_Nil)
next
  case (Match pos s g' n)
  then show ?case by (auto simp: finditer_Cons)
qed

lemma finditer_lexeme_in_text:
  "(g, p, w) \<in> set (finditer pos s) \<Longrightarrow> pos \<le> p \<and> take (length w) (drop (p - pos) s) = w"
proof (induction pos s rule: finditer_induct)
  case (Nil pos)
  then show ?case by (simp add: finditer_Nil)
next
  case (Match pos s g' n)
  from Match.prems Match.hyps(2) have
    "(g, p, w) = (g', pos, take n s) \<or> (g, p, w) \<in> set (finditer (pos + n) (drop n s))"
    by (simp add: finditer_Cons)
  then show ?case
  proof
    assume "(g, p, w) = (g', pos, take n s)"
    with Match.hyps show ?thesis by (simp add: min_absorb2)
  next
    assume "(g, p, w) \<in> set (finditer (pos + n) (drop n s))"
    from Match.IH [OF this] have le: "pos + n \<le> p"
      and t: "take (length w) (drop (p - (pos + n)) (drop n s)) = w" by blast+
    from le have "p - (pos + n) + n = p - pos" by simp
    with t le show ?thesis by simp
  qed
qed

lemma finditer_starts_sorted: "sorted_wrt (<) (map (\<lambda>(g, p, w). p) (finditer pos s))"
proof (induction pos s rule: finditer_induct)
  case (Nil pos)
  then show ?case by (simp add: finditer_Nil)
next
  case (Match pos s g n)
  have "pos < p" if "(g', p, w) \<in> set (finditer (pos + n) (drop n s))" for g' p w
    using finditer_start_range [OF that] Match.hyps by simp
  with Match show ?case by (auto simp: finditer_Cons)
qed

lemma concat_splitlines_from: "concat (splitlines_from cur s) = cur @ s"
  by (induction cur s rule: splitlines_from.induct) auto

lemma concat_splitlines: "concat (splitlines_keepends s) = s"
  by (simp add: splitlines_keepends_def concat_splitlines_from)

lemma splitlines_from_first:
  "s \<noteq> [] \<Longrightarrow> splitlines_from cur s \<noteq> [] \<and> hd (splitlines_from cur s) \<noteq> []"
  by (induction cur s rule: splitlines_from.induct) auto

text \<open>
  The line counter and \<^verbatim>\<open>col_base\<close> after the loop of lines 38-40: \<^verbatim>\<open>col_base\<close> is the
  offset at which line \<^verbatim>\<open>linea\<close> starts, and the offset of the match lies on that line.
\<close>

lemma take_Suc_concat:
  "k < length L \<Longrightarrow> length (concat (take (Suc k) L)) = length (concat (take k L)) + length (L ! k)"
  by (simp add: take_Suc_conv_app_nth)

lemma advance_line_spec:
  assumes "1 \<le> ln" and "nat (ln - 1) \<le> length L"
    and "cb = length (concat (take (nat (ln - 1)) L))"
    and "cb \<le> p" and "p < length (concat L)"
  shows "\<exists>ln' cb'. advance_line L p (ln, cb) = (ln', cb') \<and> ln \<le> ln' \<and>
           nat (ln' - 1) < length L \<and>
           cb' = length (concat (take (nat (ln' - 1)) L)) \<and> cb' \<le> p \<and>
           p < cb' + length (L ! nat (ln' - 1))"
  using assms
proof (induction L p "(ln, cb)" arbitrary: ln cb rule: advance_line.induct)
  case (1 lineas start linea col_base)
  show ?case
  proof (cases "linea - 1 < int (length lineas) \<and>
                start \<ge> col_base + length (lineas ! nat (linea - 1))")
    case True
    have k: "nat (linea - 1) < length lineas" using True "1.prems"(1) by linarith
    have suc: "nat (linea + 1 - 1) = Suc (nat (linea - 1))" using "1.prems"(1) by linarith
    have cb': "col_base + length (lineas ! nat (linea - 1)) =
        length (concat (take (nat (linea + 1 - 1)) lineas))"
      using take_Suc_concat [OF k] "1.prems"(3) suc by simp
    have "\<exists>ln' cb'. advance_line lineas start
              (linea + 1, col_base + length (lineas ! nat (linea - 1))) = (ln', cb') \<and>
            linea + 1 \<le> ln' \<and> nat (ln' - 1) < length lineas \<and>
            cb' = length (concat (take (nat (ln' - 1)) lineas)) \<and> cb' \<le> start \<and>
            start < cb' + length (lineas ! nat (ln' - 1))"
    proof (rule "1.hyps")
      show "linea - 1 < int (length lineas) \<and>
            col_base + length (lineas ! nat (linea - 1)) \<le> start" using True by simp
      show "1 \<le> linea + 1" using "1.prems"(1) by simp
      show "nat (linea + 1 - 1) \<le> length lineas" using k suc by simp
      show "col_base + length (lineas ! nat (linea - 1)) =
            length (concat (take (nat (linea + 1 - 1)) lineas))" by (rule cb')
      show "col_base + length (lineas ! nat (linea - 1)) \<le> start" using True by simp
      show "start < length (concat lineas)" by (rule "1.prems"(5))
    qed
    then obtain ln' cb' where r: "advance_line lineas start
              (linea + 1, col_base + length (lineas ! nat (linea - 1))) = (ln', cb')"
      and p: "linea + 1 \<le> ln'" "nat (ln' - 1) < length lineas"
         "cb' = length (concat (take (nat (ln' - 1)) lineas))" "cb' \<le> start"
         "start < cb' + length (lineas ! nat (ln' - 1))"
      by blast
    from True r have "advance_line lineas start (linea, col_base) = (ln', cb')"
      by (subst advance_line.simps) simp
    with p show ?thesis by auto
  next
    case False
    have stop: "advance_line lineas start (linea, col_base) = (linea, col_base)"
      using False by (subst advance_line.simps) auto
    have k: "nat (linea - 1) < length lineas"
    proof (rule ccontr)
      assume "\<not> nat (linea - 1) < length lineas"
      with "1.prems"(2) have "nat (linea - 1) = length lineas" by simp
      with "1.prems"(3) have "col_base = length (concat lineas)" by simp
      with "1.prems"(4,5) show False by simp
    qed
    then have "linea - 1 < int (length lineas)" using "1.prems"(1) by linarith
    with False have "start < col_base + length (lineas ! nat (linea - 1))" by simp
    with stop k "1.prems" show ?thesis by auto
  qed
qed

lemma lex_loop_Cons:
  "lex_loop L ((tp, start, w) # ms) lc =
     (if tp \<in> {''ESPACIO'', ''LINE_COMMENT''} then lex_loop L ms (advance_line L start lc)
      else \<lparr>tipo = (if tp = ''IDENTIFICADOR'' \<and> lower w \<in> RESERVADAS
                     then ''PALABRA_RESERVADA'' else tp),
            lexema = w, linea = fst (advance_line L start lc),
            columna = int start - int (snd (advance_line L start lc)) + 1\<rparr>
           # lex_loop L ms (advance_line L start lc))"
  by (simp add: Let_def)

lemma lex_loop_tokens:
  "map (\<lambda>t. (tipo t, lexema t)) (lex_loop L ms lc) =
     map (\<lambda>(g, p, w). (if g = ''IDENTIFICADOR'' \<and> lower w \<in> RESERVADAS
                            then ''PALABRA_RESERVADA'' else g, w))
       (filter (\<lambda>(g, p, w). g \<notin> {''ESPACIO'', ''LINE_COMMENT''}) ms)"
proof (induction ms arbitrary: lc)
  case Nil
  then show ?case by simp
next
  case (Cons m ms)
  obtain tp start w where m: "m = (tp, start, w)" by (cases m)
  show ?case
    unfolding m lex_loop_Cons using Cons.IH [of "advance_line L start lc"] by simp
qed

lemma lex_loop_positions:
  assumes "1 \<le> ln" and "nat (ln - 1) \<le> length L"
    and "cb = length (concat (take (nat (ln - 1)) L))"
    and "sorted_wrt (<) (map (\<lambda>(g, p, w). p) ms)"
    and "\<forall>(g, p, w) \<in> set ms. cb \<le> p \<and> p < length (concat L)"
    and "tok \<in> set (lex_loop L ms (ln, cb))"
  shows "ln \<le> linea tok \<and>
         (\<exists>(g, p, w) \<in> set ms.
            columna tok = int p - int (length (concat (take (nat (linea tok - 1)) L))) + 1)"
  using assms
proof (induction ms arbitrary: ln cb)
  case Nil
  then show ?case by simp
next
  case (Cons m ms)
  obtain tp start w where m: "m = (tp, start, w)" by (cases m)
  from Cons.prems(5) m have st: "cb \<le> start" "start < length (concat L)" by auto
  from advance_line_spec [OF Cons.prems(1,2,3) st]
  obtain ln' cb' where adv: "advance_line L start (ln, cb) = (ln', cb')"
    and le: "ln \<le> ln'" and k: "nat (ln' - 1) < length L"
    and cb': "cb' = length (concat (take (nat (ln' - 1)) L))" and cbs: "cb' \<le> start"
    by blast
  have later: "\<forall>(g, p, w) \<in> set ms. cb' \<le> p \<and> p < length (concat L)"
    using Cons.prems(4,5) cbs m by fastforce
  have sorted: "sorted_wrt (<) (map (\<lambda>(g, p, w). p) ms)" using Cons.prems(4) by simp
  have ln': "1 \<le> ln'" using le Cons.prems(1) by simp
  have k': "nat (ln' - 1) \<le> length L" using k by simp
  have rest: "ln' \<le> linea tok \<and>
         (\<exists>(g, p, w) \<in> set ms.
            columna tok = int p - int (length (concat (take (nat (linea tok - 1)) L))) + 1)"
    if "tok \<in> set (lex_loop L ms (ln', cb'))"
    using Cons.IH [OF ln' k' cb' sorted later that] .
  from Cons.prems(6) have "tok \<in> set (lex_loop L ms (ln', cb')) \<or>
      (linea tok = ln' \<and> columna tok = int start - int cb' + 1)"
    unfolding m lex_loop_Cons adv by (auto split: if_splits)
  then show ?case
  proof
    assume "tok \<in> set (lex_loop L ms (ln', cb'))"
    from rest [OF this] le show ?thesis by (auto simp: m)
  next
    assume "linea tok = ln' \<and> columna tok = int start - int cb' + 1"
    with le cb' show ?thesis by (auto simp: m)
  qed
qed

text \<open>
  The order of two tokens by position: an earlier line, or the same line and an earlier
  column.
\<close>

definition before :: "token \<Rightarrow> token \<Rightarrow> bool" where
  "before a b = (linea a < linea b \<or> (linea a = linea b \<and> columna a < columna b))"

lemma lex_loop_sorted:
  assumes "1 \<le> ln" and "nat (ln - 1) \<le> length L"
    and "cb = length (concat (take (nat (ln - 1)) L))"
    and "sorted_wrt (<) (map (\<lambda>(g, p, w). p) ms)"
    and "\<forall>(g, p, w) \<in> set ms. cb \<le> p \<and> p < length (concat L)"
  shows "sorted_wrt before (lex_loop L ms (ln, cb))"
  using assms
proof (induction ms arbitrary: ln cb)
  case Nil
  then show ?case by simp
next
  case (Cons m ms)
  obtain tp start w where m: "m = (tp, start, w)" by (cases m)
  from Cons.prems(5) m have st: "cb \<le> start" "start < length (concat L)" by auto
  from advance_line_spec [OF Cons.prems(1,2,3) st]
  obtain ln' cb' where adv: "advance_line L start (ln, cb) = (ln', cb')"
    and le: "ln \<le> ln'" and k: "nat (ln' - 1) < length L"
    and cb': "cb' = length (concat (take (nat (ln' - 1)) L))" and cbs: "cb' \<le> start"
    by blast
  have later: "\<forall>(g, p, w) \<in> set ms. cb' \<le> p \<and> p < length (concat L)"
    using Cons.prems(4,5) cbs m by fastforce
  have after: "\<forall>(g, p, w) \<in> set ms. start < p" using Cons.prems(4) m by auto
  have sorted: "sorted_wrt (<) (map (\<lambda>(g, p, w). p) ms)" using Cons.prems(4) by simp
  have ln': "1 \<le> ln'" using le Cons.prems(1) by simp
  have k': "nat (ln' - 1) \<le> length L" using k by simp
  have IH: "sorted_wrt before (lex_loop L ms (ln', cb'))"
    by (rule Cons.IH [OF ln' k' cb' sorted later])
  have head: "before \<lparr>tipo = x, lexema = w, linea = ln', columna = int start - int cb' + 1\<rparr> t"
    if "t \<in> set (lex_loop L ms (ln', cb'))" for t x
  proof -
    from lex_loop_positions [OF ln' k' cb' sorted later that]
    obtain g p w' where mem: "(g, p, w') \<in> set ms" and line: "ln' \<le> linea t"
      and col: "columna t = int p - int (length (concat (take (nat (linea t - 1)) L))) + 1"
      by blast
    from after mem have "start < p" by auto
    with line col cb' show ?thesis by (auto simp: before_def)
  qed
  show ?case
    unfolding m lex_loop_Cons adv using IH head by simp
qed

lemma analizar_lexico_sorted: "sorted_wrt before (analizar_lexico s)"
  unfolding analizar_lexico_def
proof (rule lex_loop_sorted)
  show "sorted_wrt (<) (map (\<lambda>(g, p, w). p) (finditer 0 s))" by (rule finditer_starts_sorted)
  show "\<forall>(g, p, w) \<in> set (finditer 0 s). 0 \<le> p \<and> p < length (concat (splitlines_keepends s))"
    using finditer_start_range [of _ _ _ 0 s] by (auto simp: concat_splitlines)
qed simp_all

lemma ident_start_facts:
  "is_ident_start c \<Longrightarrow> c \<noteq> CHR ''/'' \<and> \<not> is_digit c \<and> c \<noteq> QUOTE \<and> is_word c"
  by (auto simp: class_defs)

lemma regex_tokens_ident:
  assumes "is_ident_start c"
  shows "regex_tokens (c # r) = Some (''IDENTIFICADOR'', 1 + length (takeWhile is_word r))"
  using assms ident_start_facts [OF assms]
  by (simp add: regex_tokens_def token_specs_def re_LINE_COMMENT_def re_NUMERO_def
      re_CADENA_def re_IDENTIFICADOR_def split: list.splits)

lemma takeWhile_boundary:
  assumes "\<forall>c \<in> set xs. P c" and "rest = [] \<or> \<not> P (hd rest)"
  shows "takeWhile P (xs @ rest) = xs" and "dropWhile P (xs @ rest) = rest"
  using assms by (cases rest; simp add: takeWhile_append dropWhile_append)+

lemma advance_line_start:
  assumes "s \<noteq> []"
  shows "advance_line (splitlines_keepends s) 0 (1, 0) = (1, 0)"
proof -
  let ?L = "splitlines_keepends s"
  from splitlines_from_first [OF assms, of "[]"] have "?L \<noteq> []" and "hd ?L \<noteq> []"
    by (simp_all add: splitlines_keepends_def)
  then have "length (?L ! 0) \<noteq> 0" by (cases ?L) auto
  then show ?thesis by (subst advance_line.simps) simp
qed

lemma ident_first_token:
  assumes "w \<noteq> []" and "is_ident_start (hd w)" and "\<forall>c \<in> set (tl w). is_word c"
    and "rest = [] \<or> \<not> is_word (hd rest)"
  shows "regex_tokens (w @ rest) = Some (''IDENTIFICADOR'', length w)"
    and "analizar_lexico (w @ rest) =
          \<lparr>tipo = (if lower w \<in> RESERVADAS then ''PALABRA_RESERVADA'' else ''IDENTIFICADOR''),
           lexema = w, linea = 1, columna = 1\<rparr>
          # lex_loop (splitlines_keepends (w @ rest)) (finditer (length w) rest) (1, 0)"
proof -
  from assms(1) obtain c r where w: "w = c # r" by (cases w) auto
  with assms have c: "is_ident_start c" and r: "\<forall>c \<in> set r. is_word c" by auto
  have tw: "takeWhile is_word (r @ rest) = r" by (rule takeWhile_boundary(1) [OF r assms(4)])
  show m: "regex_tokens (w @ rest) = Some (''IDENTIFICADOR'', length w)"
    using regex_tokens_ident [OF c, of "r @ rest"] tw w by simp
  have f: "finditer 0 (w @ rest) = (''IDENTIFICADOR'', 0, w) # finditer (length w) rest"
    using finditer_Cons [OF m, of 0] by simp
  have a: "advance_line (splitlines_keepends (w @ rest)) 0 (1, 0) = (1, 0)"
    using assms(1) by (intro advance_line_start) simp
  show "analizar_lexico (w @ rest) =
          \<lparr>tipo = (if lower w \<in> RESERVADAS then ''PALABRA_RESERVADA'' else ''IDENTIFICADOR''),
           lexema = w, linea = 1, columna = 1\<rparr>
          # lex_loop (splitlines_keepends (w @ rest)) (finditer (length w) rest) (1, 0)"
    unfolding analizar_lexico_def f lex_loop_Cons a by simp
qed

lemma quote_facts:
  "QUOTE \<noteq> CHR ''/''" "\<not> is_digit QUOTE" "\<not> is_ident_start QUOTE" "\<not> is_space QUOTE"
  "QUOTE \<noteq> LF" "QUOTE \<notin> set ''=+-*/%<>''" "QUOTE \<notin> set '';(),{}.[]''"
  by (simp_all add: class_defs)

lemma re_CADENA_open:
  assumes "\<forall>c \<in> set body. c \<noteq> QUOTE \<and> c \<noteq> LF" and "rest = [] \<or> hd rest = LF"
  shows "re_CADENA (QUOTE # body @ rest) = None"
proof -
  have "rest = [] \<or> \<not> (hd rest \<noteq> QUOTE \<and> hd rest \<noteq> LF)" using assms(2) by auto
  from takeWhile_boundary(2) [OF assms(1) this]
  have d: "dropWhile (\<lambda>c. c \<noteq> QUOTE \<and> c \<noteq> LF) (body @ rest) = rest" .
  have "re_CADENA (QUOTE # body @ rest) =
      (case rest of [] \<Rightarrow> None
       | c' # _ \<Rightarrow>
           if c' = QUOTE
           then Some (length (takeWhile (\<lambda>c. c \<noteq> QUOTE \<and> c \<noteq> LF) (body @ rest)) + 2)
           else None)"
    by (simp add: re_CADENA_def d)
  with assms(2) quote_facts(5) show ?thesis
    by (cases rest) auto
qed

lemma re_CADENA_closed:
  assumes "\<forall>c \<in> set body. c \<noteq> QUOTE \<and> c \<noteq> LF"
  shows "re_CADENA (QUOTE # body @ QUOTE # rest) = Some (length body + 2)"
proof -
  have b: "QUOTE # rest = [] \<or> \<not> (hd (QUOTE # rest) \<noteq> QUOTE \<and> hd (QUOTE # rest) \<noteq> LF)"
    by simp
  from takeWhile_boundary [OF assms b] show ?thesis
    by (simp add: re_CADENA_def)
qed

lemma quote_other_groups:
  "re_LINE_COMMENT (QUOTE # r) = None" "re_NUMERO (QUOTE # r) = None"
  "re_IDENTIFICADOR (QUOTE # r) = None" "re_SIMBOLO (QUOTE # r) = None"
  "re_DELIMITADOR (QUOTE # r) = None" "re_ESPACIO (QUOTE # r) = None"
  "re_DESCONOCIDO (QUOTE # r) = Some 1"
  by (simp_all add: re_LINE_COMMENT_def re_NUMERO_def re_IDENTIFICADOR_def re_SIMBOLO_def
      re_DELIMITADOR_def re_ESPACIO_def re_DESCONOCIDO_def class_defs split: list.splits)

lemma regex_tokens_quote:
  "regex_tokens (QUOTE # r) =
     (case re_CADENA (QUOTE # r) of Some n \<Rightarrow> Some (''CADENA'', n)
      | None \<Rightarrow> Some (''DESCONOCIDO'', 1))"
  by (simp add: regex_tokens_def token_specs_def quote_other_groups split: option.splits)

lemma regex_tokens_group:
  assumes "regex_tokens s = Some (g, n)"
  shows "g = ''ESPACIO'' \<Longrightarrow> re_ESPACIO s = Some n"
    and "g = ''LINE_COMMENT'' \<Longrightarrow> re_LINE_COMMENT s = Some n"
    and "g = ''CADENA'' \<Longrightarrow> re_CADENA s = Some n"
proof -
  from assms obtain p where p: "(g, p) \<in> set token_specs" "p s = Some n"
    unfolding regex_tokens_def using first_match_SomeD by blast
  show "g = ''ESPACIO'' \<Longrightarrow> re_ESPACIO s = Some n"
    using p by (auto simp: token_specs_def)
  show "g = ''LINE_COMMENT'' \<Longrightarrow> re_LINE_COMMENT s = Some n"
    using p by (auto simp: token_specs_def)
  show "g = ''CADENA'' \<Longrightarrow> re_CADENA s = Some n"
    using p by (auto simp: token_specs_def)
qed

lemma finditer_matchD:
  "(g, p, w) \<in> set (finditer pos s) \<Longrightarrow>
     \<exists>s'. regex_tokens s' = Some (g, length w) \<and> take (length w) s' = w"
proof (induction pos s rule: finditer_induct)
  case (Nil pos)
  then show ?case by (simp add: finditer_Nil)
next
  case (Match pos s g' n)
  from Match.prems Match.hyps(2) have
    "(g, p, w) = (g', pos, take n s) \<or> (g, p, w) \<in> set (finditer (pos + n) (drop n s))"
    by (simp add: finditer_Cons)
  then show ?case
  proof
    assume "(g, p, w) = (g', pos, take n s)"
    with Match.hyps have "regex_tokens s = Some (g, length w) \<and> take (length w) s = w"
      by (simp add: min_absorb2)
    then show ?thesis by blast
  next
    assume "(g, p, w) \<in> set (finditer (pos + n) (drop n s))"
    then show ?thesis by (rule Match.IH)
  qed
qed

lemma espacio_lexeme:
  assumes "re_ESPACIO s = Some n"
  shows "\<forall>c \<in> set (take n s). is_space c"
proof -
  from assms have n: "n = length (takeWhile is_space s)"
    by (auto simp: re_ESPACIO_def Let_def split: if_splits)
  have "take n s = takeWhile is_space s"
    unfolding n by (rule takeWhile_eq_take [symmetric])
  then show ?thesis by (auto dest: set_takeWhileD)
qed

lemma line_comment_lexeme:
  assumes "re_LINE_COMMENT s = Some n"
  shows "take 2 (take n s) = ''//'' \<and> LF \<notin> set (take n s)"
proof -
  from assms obtain r where s: "s = CHR ''/'' # CHR ''/'' # r"
    and n: "n = 2 + length (takeWhile (\<lambda>c. c \<noteq> LF) r)"
    by (auto simp: re_LINE_COMMENT_def split: list.splits if_splits)
  have "take (length (takeWhile (\<lambda>c. c \<noteq> LF) r)) r = takeWhile (\<lambda>c. c \<noteq> LF) r"
    by (rule takeWhile_eq_take [symmetric])
  then have "take n s = CHR ''/'' # CHR ''/'' # takeWhile (\<lambda>c. c \<noteq> LF) r"
    by (simp add: s n)
  moreover have "LF \<noteq> CHR ''/''" by (simp add: LF_def)
  ultimately show ?thesis by (auto dest: set_takeWhileD)
qed

lemma cadena_shape:
  assumes "re_CADENA s = Some n"
  shows "\<exists>body rest. s = QUOTE # body @ QUOTE # rest \<and> n = length body + 2 \<and>
           (\<forall>c \<in> set body. c \<noteq> QUOTE \<and> c \<noteq> LF)"
proof -
  let ?P = "\<lambda>c. c \<noteq> QUOTE \<and> c \<noteq> LF"
  from assms obtain r x where s: "s = QUOTE # r" and d: "dropWhile ?P r = QUOTE # x"
    and n: "n = length (takeWhile ?P r) + 2"
    by (auto simp: re_CADENA_def split: list.splits if_splits)
  have "r = takeWhile ?P r @ dropWhile ?P r" by simp
  with d have "s = QUOTE # takeWhile ?P r @ QUOTE # x" using s by simp
  moreover have "\<forall>c \<in> set (takeWhile ?P r). c \<noteq> QUOTE \<and> c \<noteq> LF"
    by (auto dest: set_takeWhileD)
  ultimately show ?thesis using n by blast
qed

lemma skipped_lexemes:
  assumes "(g, p, w) \<in> set (finditer pos s)"
  shows "g = ''ESPACIO'' \<Longrightarrow> \<forall>c \<in> set w. is_space c"
    and "g = ''LINE_COMMENT'' \<Longrightarrow> take 2 w = ''//'' \<and> LF \<notin> set w"
proof -
  from finditer_matchD [OF assms] obtain s' where
    m: "regex_tokens s' = Some (g, length w)" and w: "take (length w) s' = w" by blast
  show "g = ''ESPACIO'' \<Longrightarrow> \<forall>c \<in> set w. is_space c"
    using espacio_lexeme [OF regex_tokens_group(1) [OF m]] w by simp
  show "g = ''LINE_COMMENT'' \<Longrightarrow> take 2 w = ''//'' \<and> LF \<notin> set w"
    using line_comment_lexeme [OF regex_tokens_group(2) [OF m]] w by simp
qed

lemma lex_loop_tipos:
  "tok \<in> set (lex_loop L ms lc) \<Longrightarrow> tipo tok \<noteq> ''ESPACIO'' \<and> tipo tok \<noteq> ''LINE_COMMENT''"
proof (induction ms arbitrary: lc)
  case Nil
  then show ?case by simp
next
  case (Cons m ms)
  obtain tp start w where m: "m = (tp, start, w)" by (cases m)
  from Cons.prems have "tok \<in> set (lex_loop L ms (advance_line L start lc)) \<or>
      (tp \<notin> {''ESPACIO'', ''LINE_COMMENT''} \<and>
       tipo tok = (if tp = ''IDENTIFICADOR'' \<and> lower w \<in> RESERVADAS
                     then ''PALABRA_RESERVADA'' else tp))"
    unfolding m lex_loop_Cons by (auto split: if_splits)
  then show ?case
  proof
    assume "tok \<in> set (lex_loop L ms (advance_line L start lc))"
    then show ?thesis by (rule Cons.IH)
  next
    assume "tp \<notin> {''ESPACIO'', ''LINE_COMMENT''} \<and>
       tipo tok = (if tp = ''IDENTIFICADOR'' \<and> lower w \<in> RESERVADAS
                     then ''PALABRA_RESERVADA'' else tp)"
    then show ?thesis by (auto split: if_splits)
  qed
qed

text \<open>A text with a comment and two lines, for the concrete instance below.\<close>

definition sample_text :: string where
  "sample_text = ''a //b'' @ [LF] @ ''c''"

text \<open>
  Claim C4. The lexemes of the matches of \<^verbatim>\<open>finditer\<close>, one after the other, are the text:
  each match starts where the one before ends, the first at offset 0, and none is empty,
  so that the offsets grow strictly, and the lexeme of a match is the text at its offset. A match of the group \<^verbatim>\<open>ESPACIO\<close> is made of whitespace
  and one of \<^verbatim>\<open>LINE_COMMENT\<close> starts with \<^verbatim>\<open>//\<close> and holds no newline. The tokens are the
  other matches, in their order; no token has the kind \<^verbatim>\<open>ESPACIO\<close> or \<^verbatim>\<open>LINE_COMMENT\<close>;
  and each token lies before the next one by line and column.
\<close>

theorem tokenizer_coverage:
  "concat (map (\<lambda>(g, p, w). w) (finditer 0 s)) = s \<and>
   (\<forall>k < length (finditer 0 s).
      fst (snd (finditer 0 s ! k)) =
        length (concat (map (\<lambda>(g, p, w). w) (take k (finditer 0 s)))) \<and>
      snd (snd (finditer 0 s ! k)) \<noteq> []) \<and>
   sorted_wrt (<) (map (\<lambda>(g, p, w). p) (finditer 0 s)) \<and>
   (\<forall>(g, p, w) \<in> set (finditer 0 s). take (length w) (drop p s) = w) \<and>
   (\<forall>(g, p, w) \<in> set (finditer 0 s).
      (g = ''ESPACIO'' \<longrightarrow> (\<forall>c \<in> set w. is_space c)) \<and>
      (g = ''LINE_COMMENT'' \<longrightarrow> take 2 w = ''//'' \<and> LF \<notin> set w)) \<and>
   map lexema (analizar_lexico s) =
     map (\<lambda>(g, p, w). w)
       (filter (\<lambda>(g, p, w). g \<notin> {''ESPACIO'', ''LINE_COMMENT''}) (finditer 0 s)) \<and>
   (\<forall>tok \<in> set (analizar_lexico s). tipo tok \<noteq> ''ESPACIO'' \<and> tipo tok \<noteq> ''LINE_COMMENT'') \<and>
   sorted_wrt before (analizar_lexico s)"
proof -
  have starts: "\<forall>k < length (finditer 0 s).
      fst (snd (finditer 0 s ! k)) =
        length (concat (map (\<lambda>(g, p, w). w) (take k (finditer 0 s)))) \<and>
      snd (snd (finditer 0 s ! k)) \<noteq> []"
  proof (intro allI impI conjI)
    fix k
    assume k: "k < length (finditer 0 s)"
    from finditer_starts [OF k]
    show "fst (snd (finditer 0 s ! k)) =
        length (concat (map (\<lambda>(g, p, w). w) (take k (finditer 0 s))))" by simp
    obtain g p w where m: "finditer 0 s ! k = (g, p, w)" by (cases "finditer 0 s ! k")
    with k have "(g, p, w) \<in> set (finditer 0 s)" by (metis nth_mem)
    then have "w \<noteq> []" by (rule finditer_lexemes_nonempty)
    with m show "snd (snd (finditer 0 s ! k)) \<noteq> []" by simp
  qed
  have skipped: "\<forall>(g, p, w) \<in> set (finditer 0 s).
      (g = ''ESPACIO'' \<longrightarrow> (\<forall>c \<in> set w. is_space c)) \<and>
      (g = ''LINE_COMMENT'' \<longrightarrow> take 2 w = ''//'' \<and> LF \<notin> set w)"
    using skipped_lexemes [of _ _ _ 0 s] by blast
  have "map (\<lambda>t. (tipo t, lexema t)) (analizar_lexico s) =
     map (\<lambda>(g, p, w). (if g = ''IDENTIFICADOR'' \<and> lower w \<in> RESERVADAS
                            then ''PALABRA_RESERVADA'' else g, w))
       (filter (\<lambda>(g, p, w). g \<notin> {''ESPACIO'', ''LINE_COMMENT''}) (finditer 0 s))"
    unfolding analizar_lexico_def by (rule lex_loop_tokens)
  then have "map snd (map (\<lambda>t. (tipo t, lexema t)) (analizar_lexico s)) =
     map snd (map (\<lambda>(g, p, w). (if g = ''IDENTIFICADOR'' \<and> lower w \<in> RESERVADAS
                            then ''PALABRA_RESERVADA'' else g, w))
       (filter (\<lambda>(g, p, w). g \<notin> {''ESPACIO'', ''LINE_COMMENT''}) (finditer 0 s)))"
    by (rule arg_cong)
  then have lexemes: "map lexema (analizar_lexico s) =
     map (\<lambda>(g, p, w). w)
       (filter (\<lambda>(g, p, w). g \<notin> {''ESPACIO'', ''LINE_COMMENT''}) (finditer 0 s))"
    by (simp add: comp_def case_prod_unfold)
  have tipos: "\<forall>tok \<in> set (analizar_lexico s).
      tipo tok \<noteq> ''ESPACIO'' \<and> tipo tok \<noteq> ''LINE_COMMENT''"
    unfolding analizar_lexico_def using lex_loop_tipos by blast
  have in_text: "\<forall>(g, p, w) \<in> set (finditer 0 s). take (length w) (drop p s) = w"
    using finditer_lexeme_in_text [of _ _ _ 0 s] by auto
  from concat_finditer [of 0 s] starts finditer_starts_sorted [of 0 s] in_text skipped lexemes
    tipos analizar_lexico_sorted [of s]
  show ?thesis by blast
qed

theorem tokenizer_coverage_witness:
  "finditer 0 sample_text =
     [(''IDENTIFICADOR'', 0, ''a''), (''ESPACIO'', 1, '' ''), (''LINE_COMMENT'', 2, ''//b''),
      (''ESPACIO'', 5, [LF]), (''IDENTIFICADOR'', 6, ''c'')] \<and>
   concat [''a'', '' '', ''//b'', [LF], ''c''] = sample_text \<and>
   analizar_lexico sample_text =
     [\<lparr>tipo = ''IDENTIFICADOR'', lexema = ''a'', linea = 1, columna = 1\<rparr>,
      \<lparr>tipo = ''IDENTIFICADOR'', lexema = ''c'', linea = 2, columna = 1\<rparr>] \<and>
   sorted_wrt before (analizar_lexico sample_text) \<and>
   before \<lparr>tipo = ''IDENTIFICADOR'', lexema = ''a'', linea = 1, columna = 1\<rparr>
          \<lparr>tipo = ''IDENTIFICADOR'', lexema = ''c'', linea = 2, columna = 1\<rparr>"
proof -
  have f: "finditer 0 sample_text =
     [(''IDENTIFICADOR'', 0, ''a''), (''ESPACIO'', 1, '' ''), (''LINE_COMMENT'', 2, ''//b''),
      (''ESPACIO'', 5, [LF]), (''IDENTIFICADOR'', 6, ''c'')]"
    by code_simp
  have a: "analizar_lexico sample_text =
     [\<lparr>tipo = ''IDENTIFICADOR'', lexema = ''a'', linea = 1, columna = 1\<rparr>,
      \<lparr>tipo = ''IDENTIFICADOR'', lexema = ''c'', linea = 2, columna = 1\<rparr>]"
    by code_simp
  from tokenizer_coverage [of sample_text] show ?thesis
    unfolding f a by simp
qed

text \<open>
  Claim C3, as the specification states it, makes a quote with no closing quote on its
  line the start of a string token that runs to the end of the line. The pattern
  \<^verbatim>\<open>"[^"\n]*"\<close> asks for the closing quote: on the text \<^verbatim>\<open>"ab\<close> the group \<^verbatim>\<open>CADENA\<close> does not
  match, and the tokens are the quote alone, of kind \<^verbatim>\<open>DESCONOCIDO\<close>, and the identifier
  \<^verbatim>\<open>ab\<close>.
\<close>

theorem unterminated_string_counterexample:
  "re_CADENA (QUOTE # ''ab'') = None \<and>
   analizar_lexico (QUOTE # ''ab'') =
     [\<lparr>tipo = ''DESCONOCIDO'', lexema = [QUOTE], linea = 1, columna = 1\<rparr>,
      \<lparr>tipo = ''IDENTIFICADOR'', lexema = ''ab'', linea = 1, columna = 2\<rparr>]"
  by code_simp

text \<open>
  Claim C3, amended. Where the scan reaches a quote that is followed by characters other
  than the quote and the newline, and then by the end of the text or a newline, the match is
  the quote alone, of kind \<^verbatim>\<open>DESCONOCIDO\<close>, and the scan goes on at the next character; at
  the start of the text this is the first token. Where these characters are followed by a
  quote, the match is of kind \<^verbatim>\<open>CADENA\<close> and runs from the one quote to the other. Every
  match of kind \<^verbatim>\<open>CADENA\<close> has this form: there is no escape and no newline in it.
\<close>

theorem string_literal_needs_closing_quote:
  "((\<forall>c \<in> set body. c \<noteq> QUOTE \<and> c \<noteq> LF) \<and> (rest = [] \<or> hd rest = LF) \<longrightarrow>
      regex_tokens (QUOTE # body @ rest) = Some (''DESCONOCIDO'', 1) \<and>
      finditer pos (QUOTE # body @ rest) =
        (''DESCONOCIDO'', pos, [QUOTE]) # finditer (pos + 1) (body @ rest) \<and>
      (\<exists>ts. analizar_lexico (QUOTE # body @ rest) =
         \<lparr>tipo = ''DESCONOCIDO'', lexema = [QUOTE], linea = 1, columna = 1\<rparr> # ts)) \<and>
   ((\<forall>c \<in> set body. c \<noteq> QUOTE \<and> c \<noteq> LF) \<longrightarrow>
      regex_tokens (QUOTE # body @ QUOTE # rest) = Some (''CADENA'', length body + 2) \<and>
      (\<exists>ts. analizar_lexico (QUOTE # body @ QUOTE # rest) =
         \<lparr>tipo = ''CADENA'', lexema = QUOTE # body @ [QUOTE], linea = 1, columna = 1\<rparr> # ts)) \<and>
   (regex_tokens s = Some (''CADENA'', n) \<longrightarrow>
      (\<exists>body' rest'. s = QUOTE # body' @ QUOTE # rest' \<and> n = length body' + 2 \<and>
         (\<forall>c \<in> set body'. c \<noteq> QUOTE \<and> c \<noteq> LF)))"
proof -
  have opened: "regex_tokens (QUOTE # body @ rest) = Some (''DESCONOCIDO'', 1) \<and>
      finditer pos (QUOTE # body @ rest) =
        (''DESCONOCIDO'', pos, [QUOTE]) # finditer (pos + 1) (body @ rest) \<and>
      (\<exists>ts. analizar_lexico (QUOTE # body @ rest) =
         \<lparr>tipo = ''DESCONOCIDO'', lexema = [QUOTE], linea = 1, columna = 1\<rparr> # ts)"
    if b: "\<forall>c \<in> set body. c \<noteq> QUOTE \<and> c \<noteq> LF" and r: "rest = [] \<or> hd rest = LF"
  proof -
    have m: "regex_tokens (QUOTE # body @ rest) = Some (''DESCONOCIDO'', 1)"
      using re_CADENA_open [OF b r] by (simp add: regex_tokens_quote)
    have f: "finditer p (QUOTE # body @ rest) =
        (''DESCONOCIDO'', p, [QUOTE]) # finditer (p + 1) (body @ rest)" for p
      using finditer_Cons [OF m, of p] by simp
    have a: "advance_line (splitlines_keepends (QUOTE # body @ rest)) 0 (1, 0) = (1, 0)"
      by (rule advance_line_start) simp
    have "analizar_lexico (QUOTE # body @ rest) =
         \<lparr>tipo = ''DESCONOCIDO'', lexema = [QUOTE], linea = 1, columna = 1\<rparr>
         # lex_loop (splitlines_keepends (QUOTE # body @ rest)) (finditer 1 (body @ rest)) (1, 0)"
      unfolding analizar_lexico_def f [of 0] lex_loop_Cons a by simp
    with m f [of pos] show ?thesis by blast
  qed
  have closed: "regex_tokens (QUOTE # body @ QUOTE # rest) = Some (''CADENA'', length body + 2) \<and>
      (\<exists>ts. analizar_lexico (QUOTE # body @ QUOTE # rest) =
         \<lparr>tipo = ''CADENA'', lexema = QUOTE # body @ [QUOTE], linea = 1, columna = 1\<rparr> # ts)"
    if b: "\<forall>c \<in> set body. c \<noteq> QUOTE \<and> c \<noteq> LF"
  proof -
    have m: "regex_tokens (QUOTE # body @ QUOTE # rest) = Some (''CADENA'', length body + 2)"
      using re_CADENA_closed [OF b, of rest] by (simp add: regex_tokens_quote)
    have f: "finditer 0 (QUOTE # body @ QUOTE # rest) =
        (''CADENA'', 0, QUOTE # body @ [QUOTE]) # finditer (length body + 2) rest"
      using finditer_Cons [OF m, of 0] by simp
    have a: "advance_line (splitlines_keepends (QUOTE # body @ QUOTE # rest)) 0 (1, 0) = (1, 0)"
      by (rule advance_line_start) simp
    have "analizar_lexico (QUOTE # body @ QUOTE # rest) =
         \<lparr>tipo = ''CADENA'', lexema = QUOTE # body @ [QUOTE], linea = 1, columna = 1\<rparr>
         # lex_loop (splitlines_keepends (QUOTE # body @ QUOTE # rest))
             (finditer (length body + 2) rest) (1, 0)"
      unfolding analizar_lexico_def f lex_loop_Cons a by simp
    with m show ?thesis by blast
  qed
  have shape: "\<exists>body' rest'. s = QUOTE # body' @ QUOTE # rest' \<and> n = length body' + 2 \<and>
         (\<forall>c \<in> set body'. c \<noteq> QUOTE \<and> c \<noteq> LF)"
    if "regex_tokens s = Some (''CADENA'', n)"
    by (rule cadena_shape [OF regex_tokens_group(3) [OF that refl]])
  from opened closed shape show ?thesis by blast
qed

theorem string_literal_needs_closing_quote_witness:
  "regex_tokens (QUOTE # ''ab'' @ [LF, CHR ''c'']) = Some (''DESCONOCIDO'', 1) \<and>
   finditer 0 (QUOTE # ''ab'' @ [LF, CHR ''c'']) =
     (''DESCONOCIDO'', 0, [QUOTE]) # finditer (0 + 1) (''ab'' @ [LF, CHR ''c'']) \<and>
   regex_tokens (QUOTE # ''ab'' @ QUOTE # [LF, CHR ''c'']) = Some (''CADENA'', length ''ab'' + 2) \<and>
   regex_tokens (QUOTE # ''ab'' @ QUOTE # ''c'') = Some (''CADENA'', 4) \<and>
   (\<exists>body' rest'. QUOTE # ''ab'' @ QUOTE # ''c'' = QUOTE # body' @ QUOTE # rest' \<and>
      (4::nat) = length body' + 2)"
proof -
  have b: "\<forall>c \<in> set ''ab''. c \<noteq> QUOTE \<and> c \<noteq> LF" by (simp add: QUOTE_def LF_def)
  have m: "regex_tokens (QUOTE # ''ab'' @ QUOTE # ''c'') = Some (''CADENA'', 4)" by code_simp
  from string_literal_needs_closing_quote
    [where body = "''ab''" and rest = "[LF, CHR ''c'']" and pos = 0
       and s = "QUOTE # ''ab'' @ QUOTE # ''c''" and n = 4] b m
  show ?thesis by auto
qed

text \<open>
  Claim C7. A lexeme of the form of an identifier, followed by the end of the text or by a
  character that is not a word character, is one match of the group \<^verbatim>\<open>IDENTIFICADOR\<close>. Its
  token has the kind \<^verbatim>\<open>PALABRA_RESERVADA\<close> if the lexeme in lower case is a reserved word,
  and \<^verbatim>\<open>IDENTIFICADOR\<close> if not, and its lexeme is the text as written. In any text, the kinds
  and lexemes of the tokens are those of the matches, with this one change of kind.
  \<^verbatim>\<open>INT\<close>, \<^verbatim>\<open>Int\<close> and \<^verbatim>\<open>int\<close> are reserved words, \<^verbatim>\<open>Inta\<close> is an identifier.
\<close>

theorem reserved_words_case_insensitive:
  "(w \<noteq> [] \<and> is_ident_start (hd w) \<and> (\<forall>c \<in> set (tl w). is_word c) \<and>
      (rest = [] \<or> \<not> is_word (hd rest)) \<longrightarrow>
      regex_tokens (w @ rest) = Some (''IDENTIFICADOR'', length w) \<and>
      (\<exists>ts. analizar_lexico (w @ rest) =
         \<lparr>tipo = (if lower w \<in> RESERVADAS then ''PALABRA_RESERVADA'' else ''IDENTIFICADOR''),
          lexema = w, linea = 1, columna = 1\<rparr> # ts) \<and>
      analizar_lexico w =
        [\<lparr>tipo = (if lower w \<in> RESERVADAS then ''PALABRA_RESERVADA'' else ''IDENTIFICADOR''),
          lexema = w, linea = 1, columna = 1\<rparr>]) \<and>
   map (\<lambda>t. (tipo t, lexema t)) (analizar_lexico s) =
     map (\<lambda>(g, p, w). (if g = ''IDENTIFICADOR'' \<and> lower w \<in> RESERVADAS
                            then ''PALABRA_RESERVADA'' else g, w))
       (filter (\<lambda>(g, p, w). g \<notin> {''ESPACIO'', ''LINE_COMMENT''}) (finditer 0 s)) \<and>
   analizar_lexico ''INT'' =
     [\<lparr>tipo = ''PALABRA_RESERVADA'', lexema = ''INT'', linea = 1, columna = 1\<rparr>] \<and>
   analizar_lexico ''Int'' =
     [\<lparr>tipo = ''PALABRA_RESERVADA'', lexema = ''Int'', linea = 1, columna = 1\<rparr>] \<and>
   analizar_lexico ''int'' =
     [\<lparr>tipo = ''PALABRA_RESERVADA'', lexema = ''int'', linea = 1, columna = 1\<rparr>] \<and>
   analizar_lexico ''Inta'' =
     [\<lparr>tipo = ''IDENTIFICADOR'', lexema = ''Inta'', linea = 1, columna = 1\<rparr>]"
proof -
  have general: "regex_tokens (w @ rest) = Some (''IDENTIFICADOR'', length w) \<and>
      (\<exists>ts. analizar_lexico (w @ rest) =
         \<lparr>tipo = (if lower w \<in> RESERVADAS then ''PALABRA_RESERVADA'' else ''IDENTIFICADOR''),
          lexema = w, linea = 1, columna = 1\<rparr> # ts) \<and>
      analizar_lexico w =
        [\<lparr>tipo = (if lower w \<in> RESERVADAS then ''PALABRA_RESERVADA'' else ''IDENTIFICADOR''),
          lexema = w, linea = 1, columna = 1\<rparr>]"
    if h: "w \<noteq> []" "is_ident_start (hd w)" "\<forall>c \<in> set (tl w). is_word c"
      "rest = [] \<or> \<not> is_word (hd rest)"
  proof -
    have e: "[] = [] \<or> \<not> is_word (hd [])" by simp
    from ident_first_token(2) [OF h(1,2,3) e]
    have "analizar_lexico w =
        [\<lparr>tipo = (if lower w \<in> RESERVADAS then ''PALABRA_RESERVADA'' else ''IDENTIFICADOR''),
          lexema = w, linea = 1, columna = 1\<rparr>]"
      by (simp add: finditer_Nil)
    with ident_first_token [OF h] show ?thesis by blast
  qed
  have ctx: "map (\<lambda>t. (tipo t, lexema t)) (analizar_lexico s) =
     map (\<lambda>(g, p, w). (if g = ''IDENTIFICADOR'' \<and> lower w \<in> RESERVADAS
                            then ''PALABRA_RESERVADA'' else g, w))
       (filter (\<lambda>(g, p, w). g \<notin> {''ESPACIO'', ''LINE_COMMENT''}) (finditer 0 s))"
    unfolding analizar_lexico_def by (rule lex_loop_tokens)
  have e1: "analizar_lexico ''INT'' =
     [\<lparr>tipo = ''PALABRA_RESERVADA'', lexema = ''INT'', linea = 1, columna = 1\<rparr>]"
    by code_simp
  have e2: "analizar_lexico ''Int'' =
     [\<lparr>tipo = ''PALABRA_RESERVADA'', lexema = ''Int'', linea = 1, columna = 1\<rparr>]"
    by code_simp
  have e3: "analizar_lexico ''int'' =
     [\<lparr>tipo = ''PALABRA_RESERVADA'', lexema = ''int'', linea = 1, columna = 1\<rparr>]"
    by code_simp
  have e4: "analizar_lexico ''Inta'' =
     [\<lparr>tipo = ''IDENTIFICADOR'', lexema = ''Inta'', linea = 1, columna = 1\<rparr>]"
    by code_simp
  from general ctx e1 e2 e3 e4 show ?thesis by blast
qed

theorem reserved_words_case_insensitive_witness:
  "regex_tokens (''WHILE'' @ ''(x'') = Some (''IDENTIFICADOR'', length ''WHILE'') \<and>
   analizar_lexico ''WHILE'' =
     [\<lparr>tipo = ''PALABRA_RESERVADA'', lexema = ''WHILE'', linea = 1, columna = 1\<rparr>] \<and>
   (\<exists>ts. analizar_lexico (''WHILE'' @ ''(x'') =
      \<lparr>tipo = ''PALABRA_RESERVADA'', lexema = ''WHILE'', linea = 1, columna = 1\<rparr> # ts)"
proof -
  have h: "''WHILE'' \<noteq> [] \<and> is_ident_start (hd ''WHILE'') \<and>
      (\<forall>c \<in> set (tl ''WHILE''). is_word c) \<and> (''(x'' = [] \<or> \<not> is_word (hd ''(x''))"
    by (simp add: class_defs)
  have l: "lower ''WHILE'' \<in> RESERVADAS" by code_simp
  from reserved_words_case_insensitive [where w = "''WHILE''" and rest = "''(x''"] h l
  show ?thesis by simp
qed

section \<open>The call stack\<close>

text \<open>
  The functions above give the interpreter a call stack without bound. CPython bounds it:
  every call of a function or method of the source takes one frame, a call for which no
  frame is left raises \<^verbatim>\<open>RecursionError\<close>, and nothing in the source catches it. The functions
  below are the same methods with the stack made explicit. Their first argument is the
  number of frames that are left: for the call itself and the calls it makes (in
  \<^verbatim>\<open>peek_rl\<close>, \<^verbatim>\<open>match_rl\<close> and the \<^verbatim>\<open>parse\<close> functions), or for the calls that a loop makes
  from the frame of its function (in the loops). Calls of built-in functions take no frame
  here.
\<close>

definition frame :: "nat \<Rightarrow> (nat \<Rightarrow> py_error + 'a) \<Rightarrow> py_error + 'a" where
  "frame d body = (if d = 0 then Inl RecursionError else body (d - 1))"

text \<open>An exception of a call ends the caller too; a result is passed on.\<close>

definition then_call :: "py_error + 'a \<Rightarrow> ('a \<Rightarrow> py_error + 'b) \<Rightarrow> py_error + 'b" where
  "then_call m f = (case m of Inl e \<Rightarrow> Inl e | Inr x \<Rightarrow> f x)"

lemma frame_cong [fundef_cong]:
  "d = d' \<Longrightarrow> (\<And>k. d' \<noteq> 0 \<Longrightarrow> k = d' - 1 \<Longrightarrow> body k = body' k) \<Longrightarrow> frame d body = frame d' body'"
  by (simp add: frame_def)

lemma then_call_cong [fundef_cong]:
  "m = m' \<Longrightarrow> (\<And>x. m' = Inr x \<Longrightarrow> f x = f' x) \<Longrightarrow> then_call m f = then_call m' f'"
  by (simp add: then_call_def split: sum.splits)

definition peek_rl :: "nat \<Rightarrow> pstate \<Rightarrow> py_error + token option" where
  "peek_rl d st = frame d (\<lambda>k. Inr (peek st 0))"

text \<open>
  \<^verbatim>\<open>match\<close> calls \<^verbatim>\<open>peek\<close> once; what follows makes no call, and is the function
  \<^term>\<open>do_match\<close>.
\<close>

definition match_rl ::
  "nat \<Rightarrow> string option \<Rightarrow> string option \<Rightarrow> string option \<Rightarrow> pstate \<Rightarrow> py_error + pstate" where
  "match_rl d tp lx msg st =
     frame d (\<lambda>k. then_call (peek_rl k st) (\<lambda>tok. Inr (do_match tp lx msg st)))"

text \<open>
  What a call does, when \<open>x\<close> is what it returns with a stack without bound: it raises
  \<^verbatim>\<open>RecursionError\<close>, or it returns \<open>x\<close>.
\<close>

definition runs_as :: "py_error + 'a \<Rightarrow> 'a \<Rightarrow> bool" where
  "runs_as m x = (m = Inl RecursionError \<or> m = Inr x)"

lemma runs_as_Inr: "runs_as (Inr x) x"
  by (simp add: runs_as_def)

lemma runs_as_frame: "(\<And>k. runs_as (body k) x) \<Longrightarrow> runs_as (frame d body) x"
  by (simp add: runs_as_def frame_def)

lemma runs_as_then: "runs_as m y \<Longrightarrow> runs_as (f y) x \<Longrightarrow> runs_as (then_call m f) x"
  by (auto simp: runs_as_def then_call_def)

lemma runs_as_frame_ctx: "(d \<noteq> 0 \<Longrightarrow> runs_as (body (d - 1)) x) \<Longrightarrow> runs_as (frame d body) x"
  by (simp add: runs_as_def frame_def)

lemma runs_as_then_ctx:
  "runs_as m y \<Longrightarrow> (m = Inr y \<Longrightarrow> runs_as (f y) x) \<Longrightarrow> runs_as (then_call m f) x"
  by (auto simp: runs_as_def then_call_def)

lemma runs_as_InrD: "runs_as m x \<Longrightarrow> m = Inr y \<Longrightarrow> y = x"
  by (auto simp: runs_as_def)

lemma runs_peek_rl: "runs_as (peek_rl d st) (peek st 0)"
  unfolding peek_rl_def by (intro runs_as_frame runs_as_Inr)

lemma runs_match_rl: "runs_as (match_rl d tp lx msg st) (do_match tp lx msg st)"
  unfolding match_rl_def
  by (rule runs_as_frame, rule runs_as_then [OF runs_peek_rl], rule runs_as_Inr)



function decl_loop_rl :: "nat \<Rightarrow> pstate \<Rightarrow> py_error + pstate" where
  "decl_loop_rl k st =
     then_call (peek_rl k st)
       (\<lambda>tok. case tok of
          Some t \<Rightarrow>
            if tipo t = ''DELIMITADOR'' \<and> lexema t = '',''
            then then_call
                   (match_rl k (Some ''IDENTIFICADOR'') None
                      (Some (''Se esperaba un identificador despu'' @ [e_acute] @ ''s de ','.''))
                      (advance st))
                   (\<lambda>st1. decl_loop_rl k st1)
            else Inr st
        | None \<Rightarrow> Inr st)"
  by pat_completeness auto
termination
proof (relation "measure (\<lambda>(k, st). remaining st)", goal_cases)
  case 1
  then show ?case by simp
next
  case (2 k st tok t st1)
  from runs_as_InrD [OF runs_peek_rl 2(1)] 2(2) have p: "peek st 0 = Some t" by simp
  from runs_as_InrD [OF runs_match_rl 2(4)]
  have "forward (advance st) st1" by (simp add: forward_do_match)
  from forward_remaining [OF this] remaining_advance [OF p] show ?case by simp
qed

declare decl_loop_rl.simps [simp del]





function (domintros) parse_expr_rl :: "nat \<Rightarrow> pstate \<Rightarrow> py_error + pstate"
  and expr_loop_rl :: "nat \<Rightarrow> pstate \<Rightarrow> py_error + pstate"
  and parse_term_rl :: "nat \<Rightarrow> pstate \<Rightarrow> py_error + pstate"
  and term_loop_rl :: "nat \<Rightarrow> pstate \<Rightarrow> py_error + pstate"
  and parse_factor_rl :: "nat \<Rightarrow> pstate \<Rightarrow> py_error + pstate" where
  "parse_expr_rl d st =
     frame d (\<lambda>k. then_call (parse_term_rl k st) (\<lambda>st1. expr_loop_rl k st1))"
| "expr_loop_rl k st =
     then_call (peek_rl k st)
       (\<lambda>tok. case tok of
          Some t \<Rightarrow>
            if tipo t = ''SIMBOLO'' \<and> lexema t \<in> {''+'', ''-''}
            then then_call (parse_term_rl k (advance st)) (\<lambda>st1. expr_loop_rl k st1)
            else Inr st
        | None \<Rightarrow> Inr st)"
| "parse_term_rl d st =
     frame d (\<lambda>k. then_call (parse_factor_rl k st) (\<lambda>st1. term_loop_rl k st1))"
| "term_loop_rl k st =
     then_call (peek_rl k st)
       (\<lambda>tok. case tok of
          Some t \<Rightarrow>
            if tipo t = ''SIMBOLO'' \<and> lexema t \<in> {''*'', ''/''}
            then then_call (parse_factor_rl k (advance st)) (\<lambda>st1. term_loop_rl k st1)
            else Inr st
        | None \<Rightarrow> Inr st)"
| "parse_factor_rl d st =
     frame d (\<lambda>k.
       then_call (peek_rl k st)
         (\<lambda>tok. case tok of
            None \<Rightarrow> Inr (err_append (''Expresi'' @ [o_acute] @ ''n incompleta.'') st)
          | Some t \<Rightarrow>
              if tipo t \<in> {''IDENTIFICADOR'', ''NUMERO''} then Inr (advance st)
              else if tipo t = ''DELIMITADOR'' \<and> lexema t = ''(''
              then then_call (parse_expr_rl k (advance st))
                     (\<lambda>st1. match_rl k (Some ''DELIMITADOR'') (Some '')'')
                              (Some (''Falta ')' para cerrar la expresi'' @ [o_acute] @ ''n.''))
                              st1)
              else Inr (advance
                     (err_append
                        (''Factor inv'' @ [a_acute] @ ''lido en la expresi'' @ [o_acute] @
                         ''n: '' @ show_tok t @ '' (l'' @ [i_acute] @ ''nea '' @
                         str_int (linea t) @ '').'')
                        st))))"
  by pat_completeness auto


lemma expr_runs_dom:
  "parse_expr_rl_expr_loop_rl_parse_term_rl_term_loop_rl_parse_factor_rl_dom (Inl (Inl (d1, a))) \<Longrightarrow>
     runs_as (parse_expr_rl d1 a) (parse_expr a)"
  "parse_expr_rl_expr_loop_rl_parse_term_rl_term_loop_rl_parse_factor_rl_dom (Inl (Inr (d2, b))) \<Longrightarrow>
     runs_as (expr_loop_rl d2 b) (expr_loop b)"
  "parse_expr_rl_expr_loop_rl_parse_term_rl_term_loop_rl_parse_factor_rl_dom (Inr (Inl (d3, c))) \<Longrightarrow>
     runs_as (parse_term_rl d3 c) (parse_term c)"
  "parse_expr_rl_expr_loop_rl_parse_term_rl_term_loop_rl_parse_factor_rl_dom
     (Inr (Inr (Inl (d4, e)))) \<Longrightarrow>
     runs_as (term_loop_rl d4 e) (term_loop e)"
  "parse_expr_rl_expr_loop_rl_parse_term_rl_term_loop_rl_parse_factor_rl_dom
     (Inr (Inr (Inr (d5, f)))) \<Longrightarrow>
     runs_as (parse_factor_rl d5 f) (parse_factor f)"
proof (induction d1 a and d2 b and d3 c and d4 e and d5 f
    rule: parse_expr_rl_expr_loop_rl_parse_term_rl_term_loop_rl_parse_factor_rl.pinduct)
  case (1 d st)
  show ?case
    unfolding parse_expr_rl.psimps [OF 1(1)] parse_expr.simps [of st]
  proof (rule runs_as_frame_ctx)
    assume d: "d \<noteq> 0"
    show "runs_as (then_call (parse_term_rl (d - 1) st) (expr_loop_rl (d - 1)))
            (expr_loop (parse_term st))"
      by (rule runs_as_then_ctx [OF 1(2) [OF d refl]]) (rule 1(3) [OF d refl])
  qed
next
  case (2 k st)
  show ?case
    unfolding expr_loop_rl.psimps [OF 2(1)]
  proof (rule runs_as_then_ctx [OF runs_peek_rl])
    assume p: "peek_rl k st = Inr (peek st 0)"
    show "runs_as
            (case peek st 0 of None \<Rightarrow> Inr st
             | Some t \<Rightarrow>
                 if tipo t = ''SIMBOLO'' \<and> lexema t \<in> {''+'', ''-''}
                 then then_call (parse_term_rl k (advance st)) (expr_loop_rl k) else Inr st)
            (expr_loop st)"
    proof (cases "peek st 0")
      case None
      then show ?thesis by (simp add: expr_loop.simps [of st] runs_as_Inr)
    next
      case (Some t)
      show ?thesis
      proof (cases "tipo t = ''SIMBOLO'' \<and> lexema t \<in> {''+'', ''-''}")
        case True
        have "runs_as (then_call (parse_term_rl k (advance st)) (expr_loop_rl k))
                (expr_loop (parse_term (advance st)))"
          by (rule runs_as_then_ctx [OF 2(2) [OF p Some True]]) (rule 2(3) [OF p Some True])
        with Some True show ?thesis by (simp add: expr_loop.simps [of st])
      next
        case False
        with Some show ?thesis by (auto simp: expr_loop.simps [of st] runs_as_Inr)
      qed
    qed
  qed
next
  case (3 d st)
  show ?case
    unfolding parse_term_rl.psimps [OF 3(1)] parse_term.simps [of st]
  proof (rule runs_as_frame_ctx)
    assume d: "d \<noteq> 0"
    show "runs_as (then_call (parse_factor_rl (d - 1) st) (term_loop_rl (d - 1)))
            (term_loop (parse_factor st))"
      by (rule runs_as_then_ctx [OF 3(2) [OF d refl]]) (rule 3(3) [OF d refl])
  qed
next
  case (4 k st)
  show ?case
    unfolding term_loop_rl.psimps [OF 4(1)]
  proof (rule runs_as_then_ctx [OF runs_peek_rl])
    assume p: "peek_rl k st = Inr (peek st 0)"
    show "runs_as
            (case peek st 0 of None \<Rightarrow> Inr st
             | Some t \<Rightarrow>
                 if tipo t = ''SIMBOLO'' \<and> lexema t \<in> {''*'', ''/''}
                 then then_call (parse_factor_rl k (advance st)) (term_loop_rl k) else Inr st)
            (term_loop st)"
    proof (cases "peek st 0")
      case None
      then show ?thesis by (simp add: term_loop.simps [of st] runs_as_Inr)
    next
      case (Some t)
      show ?thesis
      proof (cases "tipo t = ''SIMBOLO'' \<and> lexema t \<in> {''*'', ''/''}")
        case True
        have "runs_as (then_call (parse_factor_rl k (advance st)) (term_loop_rl k))
                (term_loop (parse_factor (advance st)))"
          by (rule runs_as_then_ctx [OF 4(2) [OF p Some True]]) (rule 4(3) [OF p Some True])
        with Some True show ?thesis by (simp add: term_loop.simps [of st])
      next
        case False
        with Some show ?thesis by (auto simp: term_loop.simps [of st] runs_as_Inr)
      qed
    qed
  qed
next
  case (5 d st)
  show ?case
    unfolding parse_factor_rl.psimps [OF 5(1)]
  proof (rule runs_as_frame_ctx, rule runs_as_then_ctx [OF runs_peek_rl])
    assume d: "d \<noteq> 0" and p: "peek_rl (d - 1) st = Inr (peek st 0)"
    show "runs_as
            (case peek st 0 of
               None \<Rightarrow> Inr (err_append (''Expresi'' @ [o_acute] @ ''n incompleta.'') st)
             | Some t \<Rightarrow>
                 if tipo t \<in> {''IDENTIFICADOR'', ''NUMERO''} then Inr (advance st)
                 else if tipo t = ''DELIMITADOR'' \<and> lexema t = ''(''
                 then then_call (parse_expr_rl (d - 1) (advance st))
                        (\<lambda>st1. match_rl (d - 1) (Some ''DELIMITADOR'') (Some '')'')
                                 (Some (''Falta ')' para cerrar la expresi'' @ [o_acute] @ ''n.''))
                                 st1)
                 else Inr (advance
                        (err_append
                           (''Factor inv'' @ [a_acute] @ ''lido en la expresi'' @ [o_acute] @
                            ''n: '' @ show_tok t @ '' (l'' @ [i_acute] @ ''nea '' @
                            str_int (linea t) @ '').'')
                           st)))
            (parse_factor st)"
    proof (cases "peek st 0")
      case None
      then show ?thesis by (simp add: parse_factor.simps [of st] runs_as_Inr)
    next
      case (Some t)
      show ?thesis
      proof (cases "tipo t \<notin> {''IDENTIFICADOR'', ''NUMERO''} \<and>
                    tipo t = ''DELIMITADOR'' \<and> lexema t = ''(''")
        case True
        then have n: "tipo t \<notin> {''IDENTIFICADOR'', ''NUMERO''}"
          and l: "tipo t = ''DELIMITADOR'' \<and> lexema t = ''(''" by blast+
        have "runs_as
                (then_call (parse_expr_rl (d - 1) (advance st))
                   (\<lambda>st1. match_rl (d - 1) (Some ''DELIMITADOR'') (Some '')'')
                            (Some (''Falta ')' para cerrar la expresi'' @ [o_acute] @ ''n.''))
                            st1))
                (do_match (Some ''DELIMITADOR'') (Some '')'')
                   (Some (''Falta ')' para cerrar la expresi'' @ [o_acute] @ ''n.''))
                   (parse_expr (advance st)))"
          by (rule runs_as_then [OF 5(2) [OF d refl p Some n l]]) (rule runs_match_rl)
        with Some True show ?thesis by (simp add: parse_factor.simps [of st])
      next
        case False
        with Some show ?thesis by (auto simp: parse_factor.simps [of st] runs_as_Inr)
      qed
    qed
  qed
qed

termination parse_expr_rl
proof (relation "measures
    [\<lambda>x. (case x of Inl (Inl (d, st)) \<Rightarrow> d | Inl (Inr (d, st)) \<Rightarrow> d | Inr (Inl (d, st)) \<Rightarrow> d
             | Inr (Inr (Inl (d, st))) \<Rightarrow> d | Inr (Inr (Inr (d, st))) \<Rightarrow> d),
     \<lambda>x. remaining (case x of Inl (Inl (d, st)) \<Rightarrow> st | Inl (Inr (d, st)) \<Rightarrow> st
                       | Inr (Inl (d, st)) \<Rightarrow> st | Inr (Inr (Inl (d, st))) \<Rightarrow> st
                       | Inr (Inr (Inr (d, st))) \<Rightarrow> st)]",
    goal_cases)
  case 1
  then show ?case by simp
next
  case (2 d st k)
  then show ?case by simp
next
  case (3 d st k st1)
  then show ?case by simp
next
  case (4 k st tok t)
  from runs_as_InrD [OF runs_peek_rl 4(1)] 4(2) have "peek st 0 = Some t" by simp
  then show ?case by (simp add: remaining_advance)
next
  case (5 k st tok t st1)
  from runs_as_InrD [OF runs_peek_rl 5(1)] 5(2) have p: "peek st 0 = Some t" by simp
  from runs_as_InrD [OF expr_runs_dom(3) [OF 5(5)] 5(4)]
  have "forward (advance st) st1" by (simp add: forward_parse_term)
  from forward_remaining [OF this] remaining_advance [OF p] show ?case by simp
next
  case (6 d st k)
  then show ?case by simp
next
  case (7 d st k st1)
  then show ?case by simp
next
  case (8 k st tok t)
  from runs_as_InrD [OF runs_peek_rl 8(1)] 8(2) have "peek st 0 = Some t" by simp
  then show ?case by (simp add: remaining_advance)
next
  case (9 k st tok t st1)
  from runs_as_InrD [OF runs_peek_rl 9(1)] 9(2) have p: "peek st 0 = Some t" by simp
  from runs_as_InrD [OF expr_runs_dom(5) [OF 9(5)] 9(4)]
  have "forward (advance st) st1" by (simp add: forward_parse_factor)
  from forward_remaining [OF this] remaining_advance [OF p] show ?case by simp
next
  case (10 d st k tok t)
  then show ?case by simp
qed

declare parse_expr_rl.simps [simp del] expr_loop_rl.simps [simp del]
  parse_term_rl.simps [simp del] term_loop_rl.simps [simp del] parse_factor_rl.simps [simp del]


lemma expr_rl_total:
  "parse_expr_rl_expr_loop_rl_parse_term_rl_term_loop_rl_parse_factor_rl_dom (Inl (Inl (d1, a)))"
  "parse_expr_rl_expr_loop_rl_parse_term_rl_term_loop_rl_parse_factor_rl_dom (Inl (Inr (d2, b)))"
  "parse_expr_rl_expr_loop_rl_parse_term_rl_term_loop_rl_parse_factor_rl_dom (Inr (Inl (d3, c)))"
  "parse_expr_rl_expr_loop_rl_parse_term_rl_term_loop_rl_parse_factor_rl_dom
     (Inr (Inr (Inl (d4, e))))"
  "parse_expr_rl_expr_loop_rl_parse_term_rl_term_loop_rl_parse_factor_rl_dom
     (Inr (Inr (Inr (d5, f))))"
  by (induction d1 a and d2 b and d3 c and d4 e and d5 f
      rule: parse_expr_rl_expr_loop_rl_parse_term_rl_term_loop_rl_parse_factor_rl.induct)
     (auto intro: parse_expr_rl_expr_loop_rl_parse_term_rl_term_loop_rl_parse_factor_rl.domintros)

lemma runs_parse_expr_rl: "runs_as (parse_expr_rl d st) (parse_expr st)"
  by (rule expr_runs_dom(1) [OF expr_rl_total(1)])

lemma runs_parse_term_rl: "runs_as (parse_term_rl d st) (parse_term st)"
  by (rule expr_runs_dom(3) [OF expr_rl_total(3)])

lemma runs_parse_factor_rl: "runs_as (parse_factor_rl d st) (parse_factor st)"
  by (rule expr_runs_dom(5) [OF expr_rl_total(5)])



lemma runs_decl_loop_rl: "runs_as (decl_loop_rl k st) (decl_loop st)"
proof (induction k st rule: decl_loop_rl.induct)
  case (1 k st)
  show ?case
    unfolding decl_loop_rl.simps [of k st]
  proof (rule runs_as_then_ctx [OF runs_peek_rl])
    assume p: "peek_rl k st = Inr (peek st 0)"
    show "runs_as
            (case peek st 0 of None \<Rightarrow> Inr st
             | Some t \<Rightarrow>
                 if tipo t = ''DELIMITADOR'' \<and> lexema t = '',''
                 then then_call
                        (match_rl k (Some ''IDENTIFICADOR'') None
                           (Some (''Se esperaba un identificador despu'' @ [e_acute] @
                                  ''s de ','.''))
                           (advance st))
                        (decl_loop_rl k)
                 else Inr st)
            (decl_loop st)"
    proof (cases "peek st 0")
      case None
      then show ?thesis by (simp add: decl_loop.simps [of st] runs_as_Inr)
    next
      case (Some t)
      show ?thesis
      proof (cases "tipo t = ''DELIMITADOR'' \<and> lexema t = '',''")
        case True
        let ?m = "do_match (Some ''IDENTIFICADOR'') None
                    (Some (''Se esperaba un identificador despu'' @ [e_acute] @ ''s de ','.''))
                    (advance st)"
        have "runs_as
                (then_call
                   (match_rl k (Some ''IDENTIFICADOR'') None
                      (Some (''Se esperaba un identificador despu'' @ [e_acute] @ ''s de ','.''))
                      (advance st))
                   (decl_loop_rl k))
                (decl_loop ?m)"
          by (rule runs_as_then_ctx [OF runs_match_rl]) (rule 1 [OF p Some True])
        with Some True show ?thesis by (simp add: decl_loop.simps [of st])
      next
        case False
        with Some show ?thesis by (auto simp: decl_loop.simps [of st] runs_as_Inr)
      qed
    qed
  qed
qed

lemmas runs_seq = runs_as_frame runs_as_Inr runs_match_rl runs_decl_loop_rl runs_parse_expr_rl














subsection \<open>Frames that are enough\<close>

text \<open>The number of tokens \<^verbatim>\<open>(\<close> from the cursor on.\<close>

definition is_lparen :: "token \<Rightarrow> bool" where
  "is_lparen t = (tipo t = ''DELIMITADOR'' \<and> lexema t = ''('')"














subsection \<open>Nested parentheses\<close>


fun paren_tokens :: "nat \<Rightarrow> nat \<Rightarrow> token list" where
  "paren_tokens c 0 = []"
| "paren_tokens c (Suc n) =
     \<lparr>tipo = ''DELIMITADOR'', lexema = ''('', linea = 1, columna = int c\<rparr> # paren_tokens (Suc c) n"

definition deep_tokens :: "nat \<Rightarrow> token list" where
  "deep_tokens n =
     [\<lparr>tipo = ''PALABRA_RESERVADA'', lexema = ''programa'', linea = 1, columna = 1\<rparr>,
      \<lparr>tipo = ''IDENTIFICADOR'', lexema = ''p'', linea = 1, columna = 10\<rparr>,
      \<lparr>tipo = ''DELIMITADOR'', lexema = ''('', linea = 1, columna = 11\<rparr>,
      \<lparr>tipo = ''DELIMITADOR'', lexema = '')'', linea = 1, columna = 12\<rparr>,
      \<lparr>tipo = ''DELIMITADOR'', lexema = ''{'', linea = 1, columna = 13\<rparr>,
      \<lparr>tipo = ''IDENTIFICADOR'', lexema = ''x'', linea = 1, columna = 15\<rparr>,
      \<lparr>tipo = ''SIMBOLO'', lexema = ''='', linea = 1, columna = 17\<rparr>] @ paren_tokens 19 n"





















lemma paren_tokens_open: "list_all is_lparen (paren_tokens c n)"
  by (induction n arbitrary: c) (simp_all add: is_lparen_def)

lemma length_paren_tokens: "length (paren_tokens c n) = n"
  by (induction n arbitrary: c) simp_all


lemma deep_tokens_lparens: "length (filter is_lparen (deep_tokens n)) = Suc n"
proof -
  have "filter is_lparen (paren_tokens c n) = paren_tokens c n" for c
    using paren_tokens_open [of c n] by (simp add: list_all_iff)
  then show ?thesis
    by (simp add: deep_tokens_def is_lparen_def length_paren_tokens)
qed

subsection \<open>The result of \<^verbatim>\<open>analizar_sintactico\<close>\<close>




end
